theory Spec2Isabelle
  imports Complex_Main "HOL-Library.Char_ord" "HOL-Library.List_Lexorder"
begin

section \<open>JavaScript string primitives\<close>

text \<open>
  Strings are lists of characters. The white space of \<^verbatim>\<open>String.prototype.trim\<close> and of
  the regular expression class \<^verbatim>\<open>\s\<close> is the same set (WhiteSpace and LineTerminator
  of ECMAScript); in the range of \<^typ>\<open>char\<close> it is TAB, LF, VT, FF, CR, SPACE and NBSP.
\<close>

definition is_space :: "char \<Rightarrow> bool" where
  "is_space c \<longleftrightarrow>
     c \<in> set [CHR 0x09, CHR 0x0A, CHR 0x0B, CHR 0x0C, CHR 0x0D, CHR 0x20, CHR 0xA0]"

text \<open>\<^verbatim>\<open>s.trim()\<close>\<close>

definition trim :: "string \<Rightarrow> string" where
  "trim s = rev (dropWhile is_space (rev (dropWhile is_space s)))"

text \<open>\<^verbatim>\<open>s.replace(/\s/g, '')\<close>\<close>

definition strip_ws :: "string \<Rightarrow> string" where
  "strip_ws s = filter (\<lambda>c. \<not> is_space c) s"

text \<open>
  \<^verbatim>\<open>s.split(c)\<close> for a one-character separator: the empty string gives one empty piece,
  a trailing separator gives a trailing empty piece.
\<close>

fun js_split :: "char \<Rightarrow> string \<Rightarrow> string list" where
  "js_split c [] = [ [] ]"
| "js_split c (x # xs) =
     (if x = c then [] # js_split c xs
      else (case js_split c xs of
              [] \<Rightarrow> [ [x] ]
            | t # ts \<Rightarrow> (x # t) # ts))"

text \<open>\<^verbatim>\<open>xs.join(sep)\<close>: the empty array gives the empty string.\<close>

fun js_join :: "string \<Rightarrow> string list \<Rightarrow> string" where
  "js_join sep [] = []"
| "js_join sep [x] = x"
| "js_join sep (x # y # ys) = x @ sep @ js_join sep (y # ys)"

text \<open>\<^verbatim>\<open>s || null\<close> on a string: the empty string is falsy.\<close>

definition or_null :: "string \<Rightarrow> string option" where
  "or_null s = (if s = [] then None else Some s)"

text \<open>A string is trimmed when neither end is white space.\<close>

definition trimmed :: "string \<Rightarrow> bool" where
  "trimmed s \<longleftrightarrow> (s = [] \<or> (\<not> is_space (hd s) \<and> \<not> is_space (last s)))"

section \<open>SERP settings page: normalisation before save\<close>

text \<open>
  \<^verbatim>\<open>cleanCommaSeparatedValues(value, allowSpaces = false)\<close> of
  \<^verbatim>\<open>app/auth/serp-settings/page.tsx\<close>. The argument is typed \<^verbatim>\<open>string\<close>, so the guard
  \<^verbatim>\<open>!value || typeof value !== 'string'\<close> fires exactly on the empty string.
\<close>

definition cleanCommaSeparatedValues :: "string \<Rightarrow> bool \<Rightarrow> string" where
  "cleanCommaSeparatedValues val allowSpaces =
     (if val = [] then []
      else
        let values = filter (\<lambda>v. length v > 0) (map trim (js_split CHR '','' val))
        in if \<not> allowSpaces then js_join '','' (map strip_ws values)
           else js_join '','' values)"


section \<open>Regular expressions\<close>

text \<open>
  The pattern of the leads page, \<^verbatim>\<open>/^[a-z_]+(,[a-z_]+)*$/\<close>, is written in a small
  expression type and run by a derivative matcher. The pattern is anchored at both ends and
  carries no flag, so \<^verbatim>\<open>test\<close> asks for a match of the whole string.
\<close>

datatype rx =
    Nul
  | Eps
  | Chr char
  | Range char char
  | Alt rx rx
  | Seq rx rx
  | Star rx

definition Plus :: "rx \<Rightarrow> rx" where
  "Plus r = Seq r (Star r)"

definition in_range :: "char \<Rightarrow> char \<Rightarrow> char \<Rightarrow> bool" where
  "in_range lo hi c \<longleftrightarrow> (of_char lo :: nat) \<le> of_char c \<and> (of_char c :: nat) \<le> of_char hi"

fun nullable :: "rx \<Rightarrow> bool" where
  "nullable Nul = False"
| "nullable Eps = True"
| "nullable (Chr c) = False"
| "nullable (Range lo hi) = False"
| "nullable (Alt r s) = (nullable r \<or> nullable s)"
| "nullable (Seq r s) = (nullable r \<and> nullable s)"
| "nullable (Star r) = True"

fun deriv :: "char \<Rightarrow> rx \<Rightarrow> rx" where
  "deriv x Nul = Nul"
| "deriv x Eps = Nul"
| "deriv x (Chr c) = (if x = c then Eps else Nul)"
| "deriv x (Range lo hi) = (if in_range lo hi x then Eps else Nul)"
| "deriv x (Alt r s) = Alt (deriv x r) (deriv x s)"
| "deriv x (Seq r s) =
     (if nullable r then Alt (Seq (deriv x r) s) (deriv x s) else Seq (deriv x r) s)"
| "deriv x (Star r) = Seq (deriv x r) (Star r)"

fun rx_test :: "rx \<Rightarrow> string \<Rightarrow> bool" where
  "rx_test r [] = nullable r"
| "rx_test r (x # xs) = rx_test (deriv x r) xs"

text \<open>\<^verbatim>\<open>[a-z_]\<close>\<close>

definition lower_us :: rx where
  "lower_us = Alt (Range CHR ''a'' CHR ''z'') (Chr CHR ''_'')"

text \<open>\<^verbatim>\<open>/^[a-z_]+(,[a-z_]+)*$/\<close>\<close>

definition custom_category_rx :: rx where
  "custom_category_rx = Seq (Plus lower_us) (Star (Seq (Chr CHR '','') (Plus lower_us)))"

text \<open>The words matched by an expression, for stating what the matcher decides.\<close>

inductive_set star :: "string set \<Rightarrow> string set" for A :: "string set" where
  star_Nil: "[] \<in> star A"
| star_app: "u \<in> A \<Longrightarrow> v \<in> star A \<Longrightarrow> u @ v \<in> star A"

fun lang :: "rx \<Rightarrow> string set" where
  "lang Nul = {}"
| "lang Eps = {[]}"
| "lang (Chr c) = {[c]}"
| "lang (Range lo hi) = {[c] | c. in_range lo hi c}"
| "lang (Alt r s) = lang r \<union> lang s"
| "lang (Seq r s) = {u @ v | u v. u \<in> lang r \<and> v \<in> lang s}"
| "lang (Star r) = star (lang r)"

text \<open>
  The format of a custom category string in the words of the specification: one or more
  groups of lowercase letters and underscores, joined by single commas.
\<close>

definition category_char :: "char \<Rightarrow> bool" where
  "category_char c \<longleftrightarrow> in_range CHR ''a'' CHR ''z'' c \<or> c = CHR ''_''"

definition category_group :: "string \<Rightarrow> bool" where
  "category_group g \<longleftrightarrow> g \<noteq> [] \<and> (\<forall>c \<in> set g. category_char c)"

definition category_groups :: "string \<Rightarrow> bool" where
  "category_groups s \<longleftrightarrow>
     (\<exists>gs. gs \<noteq> [] \<and> (\<forall>g \<in> set gs. g \<noteq> [] \<and> (\<forall>c \<in> set g. category_char c)) \<and>
           s = js_join '','' gs)"

section \<open>Backend tables\<close>

text \<open>
  The relational store is reached through a query builder; a table is the list of its rows.
  Timestamps are numbers. Of the lead catalogue only the columns that the page logic reads
  are kept (\<^verbatim>\<open>address\<close>, \<^verbatim>\<open>phone\<close>, \<^verbatim>\<open>url\<close> and the social links are display only).
\<close>

record user_lead =
  ul_id :: nat
  ul_user_id :: nat
  ul_lead_id :: string
  ul_excluded :: "nat option"

record serp_lead =
  sl_id :: string
  title :: "string option"
  email :: "string option"
  categories :: "string option"

record email_draft =
  ed_user_id :: nat
  ed_lead_id :: "string option"

record user_account =
  ua_id :: nat
  clerk_id :: string
  serp_keywords :: "string option"
  serp_cat :: "string option"
  serp_exc_cat :: "string option"
  serp_locations :: "string option"
  serp_states :: "string option"

record database =
  user_leads :: "user_lead list"
  serp_leads_v2 :: "serp_lead list"
  email_drafts :: "email_draft list"
  user_accounts :: "user_account list"

text \<open>
  What the outside world answers during one run of an operation: the result of
  \<^verbatim>\<open>getToken\<close> (a token, \<^verbatim>\<open>null\<close>, or a rejected promise) and, for each query of the
  source, whether the store reports an error.
\<close>

datatype token_result = Token "string option" | TokenThrows

record faults =
  getToken :: token_result
  user_leads_select_error :: "string option"
  serp_leads_filter_error :: "string option"
  email_drafts_select_failed :: bool
  serp_leads_page_error :: "string option"
  user_leads_update_failed :: bool
  user_accounts_select_failed :: bool
  user_accounts_update_failed :: bool

text \<open>\<^verbatim>\<open>!token\<close>, \<^verbatim>\<open>!userAccountId\<close>: \<^verbatim>\<open>null\<close>, the empty string and zero are falsy.\<close>

definition falsy_string :: "string option \<Rightarrow> bool" where
  "falsy_string v \<longleftrightarrow> (case v of None \<Rightarrow> True | Some s \<Rightarrow> s = [])"

definition falsy_number :: "nat option \<Rightarrow> bool" where
  "falsy_number v \<longleftrightarrow> (case v of None \<Rightarrow> True | Some n \<Rightarrow> n = 0)"

section \<open>Leads page\<close>

text \<open>The value of \<^verbatim>\<open>Math.ceil(a / b)\<close> for a count \<open>a\<close> and an integer \<open>b\<close>.\<close>

datatype jsnum = Num int | Infinity | NaN

definition math_ceil_div :: "nat \<Rightarrow> int \<Rightarrow> jsnum" where
  "math_ceil_div a b =
     (if b = 0 then (if a = 0 then NaN else Infinity)
      else Num (- ((- int a) div b)))"

text \<open>A row of the table on screen: a lead with the exclusion timestamp of its association.\<close>

record lead_row = serp_lead +
  excluded :: "nat option"

text \<open>
  The component state (one field per \<^verbatim>\<open>useState\<close>); a \<^verbatim>\<open>Set<string>\<close> is the list of its
  members in insertion order. \<open>alerts\<close> collects the calls of \<^verbatim>\<open>alert\<close>. The flag of the
  email settings modal and the timers that clear a notice after three seconds are left out.
\<close>

record leads_page =
  isLoading :: bool
  error :: string
  successMessage :: string
  userAccountId :: "nat option"
  leads :: "lead_row list"
  showWithoutEmails :: bool
  showEmailedLeads :: bool
  currentPage :: int
  recordsPerPage :: int
  totalRecords :: nat
  totalPages :: jsnum
  selectedLeads :: "string list"
  showExcludedLeads :: bool
  excludeDialogOpen :: bool
  availableCategories :: "string list"
  selectedCategories :: "string list"
  customCategory :: string
  customCategoryError :: string
  alerts :: "string list"

text \<open>\<^verbatim>\<open>xs.slice(start, end)\<close>, negative positions counted from the end.\<close>

definition js_slice :: "'a list \<Rightarrow> int \<Rightarrow> int \<Rightarrow> 'a list" where
  "js_slice xs start end =
     (let len = int (length xs);
          k = (if start < 0 then max (len + start) 0 else min start len);
          final = (if end < 0 then max (len + end) 0 else min end len)
      in take (nat (max (final - k) 0)) (drop (nat k) xs))"

text \<open>\<^verbatim>\<open>`${count}`\<close>\<close>

fun nat_to_string :: "nat \<Rightarrow> string" where
  "nat_to_string n =
     (if n < 10 then [char_of (48 + n)]
      else nat_to_string (n div 10) @ [char_of (48 + n mod 10)])"

declare nat_to_string.simps [simp del]

text \<open>\<^verbatim>\<open>set.size\<close>\<close>

definition set_size :: "string list \<Rightarrow> nat" where
  "set_size xs = length (remdups xs)"

subsection \<open>loadLeads\<close>

text \<open>
  Step 1: \<^verbatim>\<open>from('user_leads').select('id, lead_id, excluded').eq('user_id', userAccountId)\<close>
  with the visibility filter and its order.
\<close>

definition select_user_leads :: "database \<Rightarrow> nat \<Rightarrow> bool \<Rightarrow> user_lead list" where
  "select_user_leads db acct showExcluded =
     (let mine = filter (\<lambda>ul. ul_user_id ul = acct) (user_leads db)
      in if showExcluded
         then rev (sort_key (\<lambda>ul. case ul_excluded ul of None \<Rightarrow> 0 | Some t \<Rightarrow> t)
                     (filter (\<lambda>ul. ul_excluded ul \<noteq> None) mine))
         else rev (sort_key ul_id (filter (\<lambda>ul. ul_excluded ul = None) mine)))"

text \<open>\<^verbatim>\<open>from('serp_leads_v2').select(...).in('id', ids)\<close>\<close>

definition select_serp_leads :: "database \<Rightarrow> string list \<Rightarrow> serp_lead list" where
  "select_serp_leads db ids = filter (\<lambda>l. sl_id l \<in> set ids) (serp_leads_v2 db)"

text \<open>\<^verbatim>\<open>lead.email && lead.email !== 'EmailNotFound'\<close>\<close>

definition has_valid_email :: "serp_lead \<Rightarrow> bool" where
  "has_valid_email lead \<longleftrightarrow> \<not> falsy_string (email lead) \<and> email lead \<noteq> Some ''EmailNotFound''"

definition leadsWithEmailSet :: "serp_lead list \<Rightarrow> string set" where
  "leadsWithEmailSet allLeadsData = set (map sl_id (filter has_valid_email allLeadsData))"

text \<open>
  Step 3: the lead ids of the account's drafts, falsy ids dropped; the error of this query
  is not read, a failed query gives no ids.
\<close>

definition emailedLeadIds :: "faults \<Rightarrow> database \<Rightarrow> nat \<Rightarrow> string option list" where
  "emailedLeadIds f db acct =
     (if email_drafts_select_failed f then []
      else filter (\<lambda>i. \<not> falsy_string i)
             (map ed_lead_id (filter (\<lambda>d. ed_user_id d = acct) (email_drafts db))))"

text \<open>Step 4: the callback of \<^verbatim>\<open>allUserLeadsData.filter\<close>.\<close>

definition keep_user_lead ::
  "bool \<Rightarrow> bool \<Rightarrow> bool \<Rightarrow> string option list \<Rightarrow> string set \<Rightarrow> user_lead \<Rightarrow> bool" where
  "keep_user_lead showExcluded showEmailed showWithoutEmail emailed withEmail ul =
     (if \<not> showExcluded \<and> \<not> showEmailed \<and> Some (ul_lead_id ul) \<in> set emailed then False
      else if \<not> showExcluded \<and> \<not> showWithoutEmail \<and> ul_lead_id ul \<notin> withEmail then False
      else True)"

text \<open>The value of \<^verbatim>\<open>filteredUserLeads\<close> when the run reaches step 4.\<close>

definition filteredUserLeads :: "faults \<Rightarrow> database \<Rightarrow> leads_page \<Rightarrow> nat \<Rightarrow> user_lead list" where
  "filteredUserLeads f db st acct =
     (let allUserLeadsData = select_user_leads db acct (showExcludedLeads st);
          allLeadIds = map ul_lead_id allUserLeadsData;
          allLeadsData = select_serp_leads db allLeadIds;
          emailed = (if \<not> showEmailedLeads st \<and> \<not> showExcludedLeads st \<and> acct \<noteq> 0
                     then emailedLeadIds f db acct else [])
      in filter (keep_user_lead (showExcludedLeads st) (showEmailedLeads st)
                   (showWithoutEmails st) emailed (leadsWithEmailSet allLeadsData))
           allUserLeadsData)"

text \<open>Step 5: the slice of one page.\<close>

definition paginatedUserLeads :: "'a list \<Rightarrow> int \<Rightarrow> int \<Rightarrow> 'a list" where
  "paginatedUserLeads filtered page perPage =
     (let from = (page - 1) * perPage;
          to = from + perPage
      in js_slice filtered from to)"

text \<open>Step 6: the rows of the page, each with the timestamp of \<^verbatim>\<open>excludedMap\<close>.\<close>

definition mergedLeads :: "database \<Rightarrow> user_lead list \<Rightarrow> lead_row list" where
  "mergedLeads db paginated =
     (let paginatedLeadIds = map ul_lead_id paginated;
          excludedMap = map_of (rev (map (\<lambda>ul. (ul_lead_id ul, ul_excluded ul)) paginated));
          leadsData = select_serp_leads db paginatedLeadIds
      in map (\<lambda>lead. serp_lead.extend lead
                 \<lparr>excluded = (case excludedMap (sl_id lead) of None \<Rightarrow> None | Some e \<Rightarrow> e)\<rparr>)
           leadsData)"

definition loadLeads_queries :: "faults \<Rightarrow> database \<Rightarrow> leads_page \<Rightarrow> leads_page" where
  "loadLeads_queries f db st =
     (case userAccountId st of
        None \<Rightarrow> st
      | Some acct \<Rightarrow>
          if acct = 0 then st
          else (case user_leads_select_error f of
             Some msg \<Rightarrow> st\<lparr>error := ''Failed to load leads: '' @ msg\<rparr>
           | None \<Rightarrow>
               if select_user_leads db acct (showExcludedLeads st) = []
               then st\<lparr>totalRecords := 0, totalPages := Num 0, leads := []\<rparr>
               else (case serp_leads_filter_error f of
                  Some msg \<Rightarrow> st\<lparr>error := ''Failed to load leads: '' @ msg\<rparr>
                | None \<Rightarrow>
                    let filtered = filteredUserLeads f db st acct;
                        paginated = paginatedUserLeads filtered (currentPage st) (recordsPerPage st);
                        totalCount = length filtered;
                        st1 = st\<lparr>totalRecords := totalCount,
                                 totalPages := math_ceil_div totalCount (recordsPerPage st)\<rparr>
                    in if paginated = [] then st1\<lparr>leads := []\<rparr>
                       else (case serp_leads_page_error f of
                          Some msg \<Rightarrow> st1\<lparr>error := ''Failed to load leads: '' @ msg\<rparr>
                        | None \<Rightarrow> st1\<lparr>leads := mergedLeads db paginated\<rparr>))))"

text \<open>
  \<^verbatim>\<open>loadLeads\<close>: the body runs inside \<^verbatim>\<open>try\<close>, any exception sets the generic error, and
  \<^verbatim>\<open>finally\<close> clears the loading flag on every path.
\<close>

definition loadLeads :: "faults \<Rightarrow> database \<Rightarrow> leads_page \<Rightarrow> leads_page" where
  "loadLeads f db st =
     (let st0 = st\<lparr>isLoading := True, error := []\<rparr>;
          st1 = (case getToken f of
                   TokenThrows \<Rightarrow> st0\<lparr>error := ''Failed to load leads. Please try again.''\<rparr>
                 | Token tok \<Rightarrow>
                     if falsy_string tok
                     then st0\<lparr>error := ''Authentication failed. Please sign in again.''\<rparr>
                     else loadLeads_queries f db st0)
      in st1\<lparr>isLoading := False\<rparr>)"

subsection \<open>Exclusion workflow\<close>



text \<open>\<^verbatim>\<open>validateCustomCategory\<close>: the change handler of the custom category input.\<close>

definition validateCustomCategory :: "string \<Rightarrow> leads_page \<Rightarrow> leads_page" where
  "validateCustomCategory val st =
     (let st1 = st\<lparr>customCategory := val\<rparr>
      in if trim val = [] then st1\<lparr>customCategoryError := []\<rparr>
         else if rx_test custom_category_rx val then st1\<lparr>customCategoryError := []\<rparr>
         else st1\<lparr>customCategoryError :=
                ''Categories must be lowercase letters and underscores only, separated by commas with no spaces (example: plumber,electrician,contractor)''\<rparr>)"

text \<open>
  \<^verbatim>\<open>from('user_leads').update({ excluded: v }).eq('user_id', acct).in('lead_id', leadIds)\<close>
\<close>

definition update_excluded ::
  "nat \<Rightarrow> string list \<Rightarrow> nat option \<Rightarrow> user_lead list \<Rightarrow> user_lead list" where
  "update_excluded acct leadIds v rows =
     map (\<lambda>ul. if ul_user_id ul = acct \<and> ul_lead_id ul \<in> set leadIds
                then ul\<lparr>ul_excluded := v\<rparr> else ul) rows"

definition plural_suffix :: "nat \<Rightarrow> string" where
  "plural_suffix count = (if count = 1 then [] else ''s'')"

text \<open>\<^verbatim>\<open>handleRestoreLeads\<close>; \<open>f\<close> answers its own calls, \<open>f'\<close> those of the reload.\<close>

definition handleRestoreLeads ::
  "faults \<Rightarrow> faults \<Rightarrow> database \<Rightarrow> leads_page \<Rightarrow> database \<times> leads_page" where
  "handleRestoreLeads f f' db st =
     (if set_size (selectedLeads st) = 0 \<or> falsy_number (userAccountId st) then (db, st)
      else
        let st0 = st\<lparr>isLoading := True\<rparr>
        in case getToken f of
             TokenThrows \<Rightarrow>
               (db, st0\<lparr>alerts := alerts st0 @ [''Failed to restore leads. Please try again.''],
                        isLoading := False\<rparr>)
           | Token tok \<Rightarrow>
               if falsy_string tok
               then (db, st0\<lparr>alerts := alerts st0 @ [''Authentication failed. Please sign in again.''],
                             isLoading := False\<rparr>)
               else if user_leads_update_failed f
               then (db, st0\<lparr>alerts := alerts st0 @ [''Failed to restore leads. Please try again.''],
                             isLoading := False\<rparr>)
               else
                 let leadIds = selectedLeads st;
                     db1 = db\<lparr>user_leads :=
                              update_excluded (the (userAccountId st)) leadIds None (user_leads db)\<rparr>;
                     count = set_size (selectedLeads st);
                     st1 = st0\<lparr>successMessage :=
                                  ''Successfully restored '' @ nat_to_string count @ '' lead''
                                    @ plural_suffix count @ ''!'',
                                selectedLeads := []\<rparr>;
                     st2 = loadLeads f' db1 st1
                 in (db1, st2\<lparr>isLoading := False\<rparr>))"

text \<open>The categories to add: the ticked check boxes, then the pieces of the custom string.\<close>

definition categoriesToAdd :: "leads_page \<Rightarrow> string list" where
  "categoriesToAdd st =
     selectedCategories st @
     (if trim (customCategory st) \<noteq> []
      then filter (\<lambda>c. trim c \<noteq> []) (js_split CHR '','' (customCategory st))
      else [])"

text \<open>The new value of \<^verbatim>\<open>serp_exc_cat\<close> computed from the stored one.\<close>

definition newSerpExcCat :: "string option \<Rightarrow> string list \<Rightarrow> string" where
  "newSerpExcCat current toAdd =
     (let existingCategories =
            filter (\<lambda>c. trim c \<noteq> [])
              (js_split CHR '','' (case current of None \<Rightarrow> [] | Some s \<Rightarrow> s));
          newCategories = filter (\<lambda>cat. cat \<notin> set existingCategories) toAdd;
          allCategories = (if length existingCategories > 0
                           then existingCategories @ newCategories else newCategories)
      in js_join '','' allCategories)"

text \<open>
  \<^verbatim>\<open>from('user_accounts').select('serp_exc_cat').eq('id', acct).single()\<close>: an error unless
  exactly one row matches.
\<close>

definition select_account_single :: "faults \<Rightarrow> database \<Rightarrow> nat \<Rightarrow> user_account option" where
  "select_account_single f db acct =
     (if user_accounts_select_failed f then None
      else (case filter (\<lambda>a. ua_id a = acct) (user_accounts db) of
              [a] \<Rightarrow> Some a
            | _ \<Rightarrow> None))"

definition update_serp_exc_cat :: "faults \<Rightarrow> database \<Rightarrow> nat \<Rightarrow> string \<Rightarrow> database" where
  "update_serp_exc_cat f db acct v =
     (if user_accounts_update_failed f then db
      else db\<lparr>user_accounts :=
                map (\<lambda>a. if ua_id a = acct then a\<lparr>serp_exc_cat := Some v\<rparr> else a)
                  (user_accounts db)\<rparr>)"

text \<open>
  \<^verbatim>\<open>confirmExcludeLeads\<close>; \<open>now\<close> is the clock reading of \<^verbatim>\<open>new Date()\<close>, \<open>f\<close> answers
  its own calls, \<open>f'\<close> those of the reload.
\<close>

definition confirmExcludeLeads ::
  "nat \<Rightarrow> faults \<Rightarrow> faults \<Rightarrow> database \<Rightarrow> leads_page \<Rightarrow> database \<times> leads_page" where
  "confirmExcludeLeads now f f' db st =
     (if falsy_number (userAccountId st) then (db, st)
      else if trim (customCategory st) \<noteq> [] \<and> \<not> rx_test custom_category_rx (customCategory st)
      then (db, st)
      else
        let acct = the (userAccountId st);
            st0 = st\<lparr>isLoading := True\<rparr>
        in case getToken f of
             TokenThrows \<Rightarrow>
               (db, st0\<lparr>alerts := alerts st0 @ [''Failed to exclude leads. Please try again.''],
                        isLoading := False\<rparr>)
           | Token tok \<Rightarrow>
               if falsy_string tok
               then (db, st0\<lparr>alerts := alerts st0 @ [''Authentication failed. Please sign in again.''],
                             isLoading := False\<rparr>)
               else if user_leads_update_failed f
               then (db, st0\<lparr>alerts := alerts st0 @ [''Failed to exclude leads. Please try again.''],
                             isLoading := False\<rparr>)
               else
                 let leadIds = selectedLeads st;
                     db1 = db\<lparr>user_leads :=
                              update_excluded acct leadIds (Some now) (user_leads db)\<rparr>;
                     toAdd = categoriesToAdd st;
                     db2 = (if length toAdd > 0
                            then (case select_account_single f db1 acct of
                                    None \<Rightarrow> db1
                                  | Some userData \<Rightarrow>
                                      update_serp_exc_cat f db1 acct
                                        (newSerpExcCat (serp_exc_cat userData) toAdd))
                            else db1);
                     count = set_size (selectedLeads st);
                     st1 = st0\<lparr>successMessage :=
                                  ''Successfully excluded '' @ nat_to_string count @ '' lead''
                                    @ plural_suffix count @ ''!'',
                                selectedLeads := [],
                                excludeDialogOpen := False,
                                selectedCategories := [],
                                customCategory := [],
                                customCategoryError := []\<rparr>;
                     st2 = loadLeads f' db2 st1
                 in (db2, st2\<lparr>isLoading := False\<rparr>))"




section \<open>SERP settings page: autosave\<close>

record settings_page =
  isSignedIn :: bool
  userId :: "string option"
  serpKeywords :: string
  serpCategory :: string
  serpExcludedCategory :: string
  serpLocations :: string
  serpStates :: string
  serpDataLoaded :: bool
  isSaving :: bool
  invalidLocationCodes :: "string list"
  isValidatingCodes :: bool
  invalidCategoryItems :: "string list"
  invalidExcludedCategoryItems :: "string list"
  settingsError :: string
  message :: string

text \<open>
  The autosave effect: \<open>None\<close> when it returns before \<^verbatim>\<open>setTimeout\<close>, otherwise the delay
  of the timer that will call \<^verbatim>\<open>autoSaveSerpSettings\<close>.
\<close>

definition autoSaveEffect :: "settings_page \<Rightarrow> nat option" where
  "autoSaveEffect st =
     (if \<not> isSignedIn st \<or> \<not> serpDataLoaded st then None
      else if isValidatingCodes st then None
      else if length (invalidCategoryItems st) > 0
              \<or> length (invalidExcludedCategoryItems st) > 0
              \<or> length (invalidLocationCodes st) > 0 then None
      else Some 2000)"

text \<open>
  \<^verbatim>\<open>from('user_accounts').update({...}).eq('clerk_id', userId)\<close> with the five cleaned
  fields, each \<^verbatim>\<open>|| null\<close>.
\<close>

definition update_serp_settings :: "string \<Rightarrow> settings_page \<Rightarrow> user_account \<Rightarrow> user_account" where
  "update_serp_settings uid st a =
     (if clerk_id a = uid
      then a\<lparr>serp_keywords := or_null (cleanCommaSeparatedValues (serpKeywords st) True),
             serp_cat := or_null (cleanCommaSeparatedValues (serpCategory st) False),
             serp_exc_cat := or_null (cleanCommaSeparatedValues (serpExcludedCategory st) False),
             serp_locations := or_null (cleanCommaSeparatedValues (serpLocations st) False),
             serp_states := or_null (cleanCommaSeparatedValues (serpStates st) True)\<rparr>
      else a)"

definition autoSaveSerpSettings ::
  "faults \<Rightarrow> database \<Rightarrow> settings_page \<Rightarrow> database \<times> settings_page" where
  "autoSaveSerpSettings f db st =
     (if falsy_string (userId st) then (db, st)
      else if isValidatingCodes st then (db, st)
      else if length (invalidCategoryItems st) > 0
              \<or> length (invalidExcludedCategoryItems st) > 0
              \<or> length (invalidLocationCodes st) > 0 then (db, st)
      else
        let st0 = st\<lparr>isSaving := True\<rparr>
        in case getToken f of
             TokenThrows \<Rightarrow>
               (db, st0\<lparr>settingsError := ''Failed to save settings. Please check your connection.'',
                        isSaving := False\<rparr>)
           | Token tok \<Rightarrow>
               if falsy_string tok
               then (db, st0\<lparr>settingsError := ''Authentication failed. Please sign in again.'',
                             isSaving := False\<rparr>)
               else if user_accounts_update_failed f
               then (db, st0\<lparr>settingsError := ''Failed to save settings. Changes may be lost.'',
                             isSaving := False\<rparr>)
               else
                 (db\<lparr>user_accounts :=
                       map (update_serp_settings (the (userId st)) st) (user_accounts db)\<rparr>,
                  st0\<lparr>settingsError := [],
                      message := ''Settings saved automatically'',
                      isSaving := False\<rparr>))"

section \<open>Properties in the words of the specification\<close>

text \<open>
  A piece of a normalised value: non-empty, trimmed, free of commas and, for a field that
  disallows spaces, free of white space.
\<close>

definition clean_token :: "bool \<Rightarrow> string \<Rightarrow> bool" where
  "clean_token allowSpaces t \<longleftrightarrow>
     t \<noteq> [] \<and> trimmed t \<and> CHR '','' \<notin> set t \<and>
     (\<not> allowSpaces \<longrightarrow> (\<forall>c \<in> set t. \<not> is_space c))"

text \<open>
  The persisted form of a field in the words of the specification. The value is split at
  commas into entries; an entry is trimmed, that is, stripped of the white space around its
  first and last non-space character, and an entry with no such character is dropped; in a
  field that disallows inner spaces all remaining white space is deleted from the entry; the
  entries are joined with commas; an empty result is stored as null.
\<close>

definition blank :: "string \<Rightarrow> bool" where
  "blank p \<longleftrightarrow> (\<forall>c \<in> set p. is_space c)"

definition trimmed_of :: "string \<Rightarrow> string \<Rightarrow> bool" where
  "trimmed_of p t \<longleftrightarrow>
     (\<exists>l r. p = l @ t @ r \<and> blank l \<and> blank r \<and>
            t \<noteq> [] \<and> \<not> is_space (hd t) \<and> \<not> is_space (last t))"

inductive deletes_ws :: "string \<Rightarrow> string \<Rightarrow> bool" where
  del_Nil: "deletes_ws [] []"
| del_keep: "\<not> is_space c \<Longrightarrow> deletes_ws p u \<Longrightarrow> deletes_ws (c # p) (c # u)"
| del_drop: "is_space c \<Longrightarrow> deletes_ws p u \<Longrightarrow> deletes_ws (c # p) u"

definition entry_normal :: "bool \<Rightarrow> string \<Rightarrow> string \<Rightarrow> bool" where
  "entry_normal allowSpaces p u \<longleftrightarrow>
     (\<exists>t. trimmed_of p t \<and> (if allowSpaces then u = t else deletes_ws t u))"

definition normalizes :: "bool \<Rightarrow> string \<Rightarrow> string \<Rightarrow> bool" where
  "normalizes allowSpaces s out \<longleftrightarrow>
     (\<exists>ps us. ps \<noteq> [] \<and> (\<forall>p \<in> set ps. CHR '','' \<notin> set p) \<and> s = js_join '','' ps \<and>
              list_all2 (entry_normal allowSpaces) (filter (\<lambda>p. \<not> blank p) ps) us \<and>
              out = js_join '','' us)"

definition persists :: "bool \<Rightarrow> string \<Rightarrow> string option \<Rightarrow> bool" where
  "persists allowSpaces s v \<longleftrightarrow>
     (\<exists>out. normalizes allowSpaces s out \<and>
            (out = [] \<and> v = None \<or> out \<noteq> [] \<and> v = Some out))"

text \<open>
  The two filters of the lead list in the words of the specification: a lead is already
  drafted when an email draft of the account refers to it; an email is valid when it is
  non-empty and not the sentinel value.
\<close>

definition already_drafted :: "database \<Rightarrow> nat \<Rightarrow> string \<Rightarrow> bool" where
  "already_drafted db acct lid \<longleftrightarrow>
     (\<exists>d \<in> set (email_drafts db). ed_user_id d = acct \<and> ed_lead_id d = Some lid)"

definition valid_email_spec :: "string option \<Rightarrow> bool" where
  "valid_email_spec e \<longleftrightarrow>
     (case e of None \<Rightarrow> False | Some s \<Rightarrow> s \<noteq> [] \<and> s \<noteq> ''EmailNotFound'')"

definition lead_has_valid_email :: "database \<Rightarrow> string \<Rightarrow> bool" where
  "lead_has_valid_email db lid \<longleftrightarrow>
     (\<exists>l \<in> set (serp_leads_v2 db). sl_id l = lid \<and> valid_email_spec (email l))"

definition filtered_spec :: "database \<Rightarrow> leads_page \<Rightarrow> nat \<Rightarrow> user_lead list" where
  "filtered_spec db st acct =
     (if showExcludedLeads st then select_user_leads db acct True
      else filter (\<lambda>ul. showWithoutEmails st \<or> lead_has_valid_email db (ul_lead_id ul))
             (filter (\<lambda>ul. showEmailedLeads st \<or> \<not> already_drafted db acct (ul_lead_id ul))
                (select_user_leads db acct False)))"

section \<open>Sample data\<close>

text \<open>Sample data for the settings page.\<close>

definition sample_account :: user_account where
  "sample_account =
     \<lparr>ua_id = 7, clerk_id = ''user_a'', serp_keywords = Some ''old'', serp_cat = None,
      serp_exc_cat = Some ''roofer'', serp_locations = None, serp_states = None\<rparr>"

definition sample_db :: database where
  "sample_db =
     \<lparr>user_leads = [], serp_leads_v2 = [], email_drafts = [], user_accounts = [sample_account]\<rparr>"

definition no_faults :: faults where
  "no_faults =
     \<lparr>getToken = Token (Some ''jwt''), user_leads_select_error = None,
      serp_leads_filter_error = None, email_drafts_select_failed = False,
      serp_leads_page_error = None, user_leads_update_failed = False,
      user_accounts_select_failed = False, user_accounts_update_failed = False\<rparr>"

definition sample_settings :: settings_page where
  "sample_settings =
     \<lparr>isSignedIn = True, userId = Some ''user_a'',
      serpKeywords = '' pool repair , ,spa  service'',
      serpCategory = '' plumber ,pool_cleaner,, '',
      serpExcludedCategory = '' , '',
      serpLocations = ''10 14221 , 90 61'',
      serpStates = [],
      serpDataLoaded = True, isSaving = False, invalidLocationCodes = [],
      isValidatingCodes = False, invalidCategoryItems = [],
      invalidExcludedCategoryItems = [], settingsError = [], message = []\<rparr>"

definition validating_settings :: settings_page where
  "validating_settings =
     sample_settings\<lparr>serpLocations := ''1014221, 90'', isValidatingCodes := True\<rparr>"

text \<open>Sample data for the leads page: the state after mount, and a small store.\<close>

definition initial_page :: leads_page where
  "initial_page =
     \<lparr>isLoading = False, error = [], successMessage = [], userAccountId = None, leads = [],
      showWithoutEmails = False, showEmailedLeads = False, currentPage = 1,
      recordsPerPage = 50, totalRecords = 0, totalPages = Num 0, selectedLeads = [],
      showExcludedLeads = False, excludeDialogOpen = False, availableCategories = [],
      selectedCategories = [], customCategory = [], customCategoryError = [], alerts = []\<rparr>"

definition small_db :: database where
  "small_db =
     \<lparr>user_leads =
        [\<lparr>ul_id = 1, ul_user_id = 7, ul_lead_id = ''A'', ul_excluded = None\<rparr>,
         \<lparr>ul_id = 2, ul_user_id = 7, ul_lead_id = ''B'', ul_excluded = None\<rparr>,
         \<lparr>ul_id = 3, ul_user_id = 7, ul_lead_id = ''C'', ul_excluded = Some 1000\<rparr>,
         \<lparr>ul_id = 4, ul_user_id = 7, ul_lead_id = ''D'', ul_excluded = None\<rparr>,
         \<lparr>ul_id = 5, ul_user_id = 8, ul_lead_id = ''A'', ul_excluded = Some 900\<rparr>],
      serp_leads_v2 =
        [\<lparr>sl_id = ''A'', title = Some ''Ace Plumbing'', email = Some ''a@ace.example'',
          categories = Some ''plumber contractor''\<rparr>,
         \<lparr>sl_id = ''B'', title = Some ''Bright Electric'', email = Some ''EmailNotFound'',
          categories = Some ''electrician''\<rparr>,
         \<lparr>sl_id = ''C'', title = Some ''City Roofing'', email = Some ''c@city.example'',
          categories = Some ''roofer''\<rparr>,
         \<lparr>sl_id = ''D'', title = Some ''Delta Pools'', email = Some ''d@delta.example'',
          categories = None\<rparr>],
      email_drafts = [\<lparr>ed_user_id = 7, ed_lead_id = Some ''D''\<rparr>,
                      \<lparr>ed_user_id = 8, ed_lead_id = Some ''A''\<rparr>],
      user_accounts = [sample_account]\<rparr>"

definition dialog_page :: leads_page where
  "dialog_page =
     initial_page\<lparr>userAccountId := Some 7, selectedLeads := [''A''],
                  excludeDialogOpen := True, availableCategories := [''contractor'', ''plumber''],
                  customCategory := ''plumber, electrician''\<rparr>"

text \<open>A store with 120 active associations of account 7, each lead with an email address.\<close>

definition big_db :: database where
  "big_db =
     \<lparr>user_leads =
        map (\<lambda>i. \<lparr>ul_id = i, ul_user_id = 7, ul_lead_id = nat_to_string i, ul_excluded = None\<rparr>)
          [1..<121],
      serp_leads_v2 =
        map (\<lambda>i. \<lparr>sl_id = nat_to_string i, title = None, email = Some ''info@shop.example'',
                   categories = None\<rparr>)
          [1..<121],
      email_drafts = [],
      user_accounts = [sample_account]\<rparr>"

text \<open>Sample runs of the leads page.\<close>

definition fetch_fails :: faults where
  "fetch_fails = no_faults\<lparr>user_leads_select_error := Some ''connection reset''\<rparr>"

definition loaded_page :: leads_page where
  "loaded_page =
     initial_page\<lparr>userAccountId := Some 7, totalRecords := 120, totalPages := Num 3\<rparr>"


definition restore_page :: leads_page where
  "restore_page =
     initial_page\<lparr>userAccountId := Some 7, showExcludedLeads := True,
                  selectedLeads := [''C'', ''A'']\<rparr>"

definition exclude_page :: leads_page where
  "exclude_page =
     initial_page\<lparr>userAccountId := Some 7, selectedLeads := [''A'', ''B''],
                  excludeDialogOpen := True,
                  availableCategories := [''contractor'', ''electrician'', ''plumber''],
                  selectedCategories := [''plumber''],
                  customCategory := ''plumber,electrician''\<rparr>"

section \<open>Facts about the string primitives\<close>

lemma js_split_nonempty: "js_split c s \<noteq> []"
  by (induction s) (auto split: list.splits)

lemma js_split_no_sep: "c \<notin> set s \<Longrightarrow> js_split c s = [s]"
  by (induction s) auto

lemma js_split_append_sep:
  "c \<notin> set t \<Longrightarrow> js_split c (t @ c # r) = t # js_split c r"
  by (induction t) auto

lemma js_split_pieces_no_sep: "t \<in> set (js_split c s) \<Longrightarrow> c \<notin> set t"
proof (induction s arbitrary: t)
  case Nil
  then show ?case by simp
next
  case (Cons x xs)
  show ?case
  proof (cases "x = c")
    case True
    with Cons show ?thesis by auto
  next
    case False
    obtain p ps where ps: "js_split c xs = p # ps"
      using js_split_nonempty [of c xs] by (cases "js_split c xs") auto
    with Cons False show ?thesis by auto
  qed
qed

lemma js_split_join:
  "ts \<noteq> [] \<Longrightarrow> \<forall>t \<in> set ts. c \<notin> set t \<Longrightarrow> js_split c (js_join [c] ts) = ts"
proof (induction "[c]" ts rule: js_join.induct)
  case 1
  then show ?case by simp
next
  case (2 x)
  then show ?case by (simp add: js_split_no_sep)
next
  case (3 x y ys)
  then show ?case by (simp add: js_split_append_sep)
qed

lemma set_trim: "set (trim s) \<subseteq> set s"
proof -
  have "set (trim s) = set (dropWhile is_space (rev (dropWhile is_space s)))"
    by (simp add: trim_def)
  also have "\<dots> \<subseteq> set (rev (dropWhile is_space s))"
    by (rule set_dropWhileD [THEN subsetI])
  also have "\<dots> \<subseteq> set s"
    using set_dropWhileD by fastforce
  finally show ?thesis .
qed

lemma set_strip_ws: "set (strip_ws s) = {c \<in> set s. \<not> is_space c}"
  by (auto simp: strip_ws_def)

lemma trim_id: "trimmed s \<Longrightarrow> trim s = s"
proof (cases s)
  case Nil
  then show ?thesis by (simp add: trim_def)
next
  case (Cons a as)
  assume "trimmed s"
  with Cons have h: "\<not> is_space a" and l: "\<not> is_space (last s)"
    by (auto simp: trimmed_def)
  from h Cons have 1: "dropWhile is_space s = s" by simp
  from Cons have "rev s \<noteq> []" by simp
  then obtain b bs where r: "rev s = b # bs" by (cases "rev s") auto
  have "b = last s" using r Cons by (metis hd_rev list.sel(1) list.distinct(1))
  with l have "dropWhile is_space (b # bs) = b # bs" by simp
  then have 2: "dropWhile is_space (rev s) = rev s" by (simp only: r)
  show ?thesis by (simp add: trim_def 1 2)
qed

lemma trimmed_trim: "trimmed (trim s)"
proof (cases "trim s = []")
  case True
  then show ?thesis by (simp add: trimmed_def)
next
  case False
  let ?d = "dropWhile is_space s"
  let ?e = "dropWhile is_space (rev ?d)"
  from False have e: "?e \<noteq> []" by (simp add: trim_def)
  then have he: "\<not> is_space (hd ?e)" by (rule hd_dropWhile)
  have last_t: "last (trim s) = hd ?e"
    using e by (simp add: trim_def last_rev)
  have "rev ?d \<noteq> []"
  proof
    assume "rev ?d = []"
    then have "?e = []" by (simp only: dropWhile.simps)
    with e show False by simp
  qed
  then have d: "?d \<noteq> []" by (simp only: rev_is_Nil_conv not_False_eq_True)
  then have hd: "\<not> is_space (hd ?d)" by (rule hd_dropWhile)
  obtain k where k: "rev ?d = k @ ?e"
    by (metis takeWhile_dropWhile_id)
  then have "?d = rev ?e @ rev k" by (metis rev_append rev_rev_ident)
  with e have "hd ?d = hd (rev ?e)" by (metis hd_append2 rev_is_Nil_conv)
  with hd have "\<not> is_space (hd (trim s))" by (simp add: trim_def)
  with he last_t False show ?thesis by (simp add: trimmed_def)
qed

lemma strip_ws_trimmed_nonempty:
  "trimmed s \<Longrightarrow> s \<noteq> [] \<Longrightarrow> strip_ws s \<noteq> []"
  by (cases s) (auto simp: trimmed_def strip_ws_def)

lemma strip_ws_no_space: "\<forall>c \<in> set (strip_ws s). \<not> is_space c"
  by (simp add: strip_ws_def)

lemma no_space_trimmed: "\<forall>c \<in> set s. \<not> is_space c \<Longrightarrow> trimmed s"
  by (cases s) (auto simp: trimmed_def)

lemma no_space_strip_ws: "\<forall>c \<in> set s. \<not> is_space c \<Longrightarrow> strip_ws s = s"
  by (simp add: strip_ws_def)

section \<open>Normalisation before save\<close>

lemma clean_pipeline:
  "cleanCommaSeparatedValues s a =
     js_join '','' (map (if a then id else strip_ws)
                      (filter (\<lambda>v. v \<noteq> []) (map trim (js_split CHR '','' s))))"
proof (cases "s = []")
  case True
  then show ?thesis by (simp add: cleanCommaSeparatedValues_def trim_def)
next
  case False
  then show ?thesis by (simp add: cleanCommaSeparatedValues_def Let_def)
qed

lemma clean_tokens:
  assumes "u \<in> set (map (if a then id else strip_ws)
                      (filter (\<lambda>v. v \<noteq> []) (map trim (js_split CHR '','' s))))"
  shows "clean_token a u"
proof -
  from assms obtain p where p: "p \<in> set (js_split CHR '','' s)" and ne: "trim p \<noteq> []"
    and u: "u = (if a then id else strip_ws) (trim p)" by auto
  have nc: "CHR '','' \<notin> set (trim p)"
    using js_split_pieces_no_sep [OF p] set_trim [of p] by auto
  show ?thesis
  proof (cases a)
    case True
    with u ne nc show ?thesis by (simp add: clean_token_def trimmed_trim)
  next
    case False
    with u have u': "u = strip_ws (trim p)" by simp
    have "u \<noteq> []" unfolding u' using ne trimmed_trim by (rule strip_ws_trimmed_nonempty [rotated])
    moreover have ns: "\<forall>c \<in> set u. \<not> is_space c" unfolding u' by (rule strip_ws_no_space)
    moreover have "CHR '','' \<notin> set u" unfolding u' using nc by (simp add: set_strip_ws)
    ultimately show ?thesis using False by (simp add: clean_token_def no_space_trimmed)
  qed
qed

lemma clean_fixed:
  assumes "\<forall>u \<in> set us. clean_token a u"
  shows "cleanCommaSeparatedValues (js_join '','' us) a = js_join '','' us"
proof (cases "us = []")
  case True
  then show ?thesis by (simp add: cleanCommaSeparatedValues_def)
next
  case False
  have nc: "\<forall>t \<in> set us. CHR '','' \<notin> set t" using assms by (simp add: clean_token_def)
  have sp: "js_split CHR '','' (js_join '','' us) = us"
    using js_split_join [OF False nc] by simp
  have tr: "map trim us = us"
    using assms by (simp add: clean_token_def trim_id map_idI)
  have fl: "filter (\<lambda>v. v \<noteq> []) us = us"
    using assms by (simp add: clean_token_def)
  have st: "map (if a then id else strip_ws) us = us"
    using assms by (auto simp: clean_token_def no_space_strip_ws intro!: map_idI)
  show ?thesis by (simp only: clean_pipeline sp tr fl st)
qed

text \<open>
  Claim C10. Normalising a value that is already normalised returns it unchanged, for both
  values of the \<open>allowSpaces\<close> flag.
\<close>

theorem clean_idempotent:
  "cleanCommaSeparatedValues (cleanCommaSeparatedValues s a) a = cleanCommaSeparatedValues s a"
  unfolding clean_pipeline [of s a]
  by (rule clean_fixed) (blast intro: clean_tokens)


lemma js_join_split: "js_join [c] (js_split c s) = s"
proof (induction s)
  case Nil
  show ?case by simp
next
  case (Cons x xs)
  obtain p ps where ps: "js_split c xs = p # ps"
    using js_split_nonempty [of c xs] by (cases "js_split c xs") auto
  show ?case
  proof (cases "x = c")
    case True
    with Cons ps show ?thesis by simp
  next
    case False
    with Cons ps show ?thesis by (cases ps) simp_all
  qed
qed

lemma js_split_chars:
  "(\<forall>p \<in> set (js_split c s). \<forall>x \<in> set p. P x) \<longleftrightarrow> (\<forall>x \<in> set s. x = c \<or> P x)"
proof (induction s)
  case Nil
  show ?case by simp
next
  case (Cons x xs)
  obtain p ps where ps: "js_split c xs = p # ps"
    using js_split_nonempty [of c xs] by (cases "js_split c xs") auto
  with Cons show ?case by (cases "x = c") auto
qed

lemma trim_decomp: "\<exists>l r. p = l @ trim p @ r \<and> blank l \<and> blank r"
proof -
  let ?l = "takeWhile is_space p"
  let ?d = "dropWhile is_space p"
  let ?r = "rev (takeWhile is_space (rev ?d))"
  have "?d = rev (takeWhile is_space (rev ?d) @ dropWhile is_space (rev ?d))"
    by (simp only: takeWhile_dropWhile_id rev_rev_ident)
  then have "?d = rev (dropWhile is_space (rev ?d)) @ ?r" by (simp only: rev_append)
  then have d: "?d = trim p @ ?r" by (simp only: trim_def)
  have "p = ?l @ ?d" by simp
  with d have "p = ?l @ trim p @ ?r" by simp
  moreover have "blank ?l" by (auto simp: blank_def dest: set_takeWhileD)
  moreover have "blank ?r" by (auto simp: blank_def dest: set_takeWhileD)
  ultimately show ?thesis by blast
qed

lemma trim_blank: "trim p = [] \<longleftrightarrow> blank p"
proof
  assume "trim p = []"
  with trim_decomp [of p] show "blank p" by (auto simp: blank_def)
next
  assume "blank p"
  then have "dropWhile is_space p = []" unfolding blank_def by (simp only: dropWhile_eq_Nil_conv)
  then show "trim p = []" unfolding trim_def by (simp only: rev.simps dropWhile.simps)
qed

lemma trimmed_of_trim: "\<not> blank p \<Longrightarrow> trimmed_of p (trim p)"
  using trim_decomp [of p] trimmed_trim [of p]
  by (auto simp: trimmed_of_def trimmed_def trim_blank)

lemma trimmed_of_unique:
  assumes "trimmed_of p t"
  shows "t = trim p"
proof -
  from assms obtain l r where p: "p = l @ t @ r" and l: "blank l" and r: "blank r"
    and t: "t \<noteq> []" "\<not> is_space (hd t)" "\<not> is_space (last t)"
    by (auto simp: trimmed_of_def)
  from t obtain a as where ta: "t = a # as" by (cases t) auto
  have 1: "dropWhile is_space p = t @ r"
    using l t(2) ta by (simp add: p blank_def)
  from t have "rev t \<noteq> []" by simp
  then obtain b bs where tb: "rev t = b # bs" by (cases "rev t") auto
  have "b = last t" using tb t(1) by (metis hd_rev list.sel(1))
  with t(3) have b: "\<not> is_space b" by simp
  have "dropWhile is_space (rev (t @ r)) = dropWhile is_space (rev r @ b # bs)"
    by (simp add: tb)
  also have "\<dots> = dropWhile is_space (b # bs)"
    by (rule dropWhile_append2) (use r in \<open>auto simp: blank_def\<close>)
  also have "\<dots> = b # bs" using b by simp
  finally have "rev (dropWhile is_space (rev (t @ r))) = t" using tb by (metis rev_rev_ident)
  then show ?thesis by (simp add: trim_def 1)
qed

lemma trimmed_of_not_blank: "trimmed_of p t \<Longrightarrow> \<not> blank p"
proof -
  assume a: "trimmed_of p t"
  then obtain l r where "p = l @ t @ r" "t \<noteq> []" "\<not> is_space (hd t)"
    by (auto simp: trimmed_of_def)
  then have "hd t \<in> set p" "\<not> is_space (hd t)" by simp_all
  then show ?thesis by (auto simp: blank_def)
qed

lemma deletes_ws_strip: "deletes_ws t (strip_ws t)"
  by (induction t) (auto simp: strip_ws_def intro: deletes_ws.intros)

lemma deletes_ws_unique: "deletes_ws t u \<Longrightarrow> u = strip_ws t"
  by (induction rule: deletes_ws.induct) (simp_all add: strip_ws_def)

lemma entry_normal_iff:
  "entry_normal a p u \<longleftrightarrow> \<not> blank p \<and> u = (if a then id else strip_ws) (trim p)"
proof
  assume "entry_normal a p u"
  then obtain t where t: "trimmed_of p t" and u: "if a then u = t else deletes_ws t u"
    by (auto simp: entry_normal_def)
  from t have "t = trim p" by (rule trimmed_of_unique)
  with u t show "\<not> blank p \<and> u = (if a then id else strip_ws) (trim p)"
    by (auto dest: deletes_ws_unique trimmed_of_not_blank split: if_splits)
next
  assume "\<not> blank p \<and> u = (if a then id else strip_ws) (trim p)"
  then show "entry_normal a p u"
    unfolding entry_normal_def
    by (intro exI [of _ "trim p"]) (auto simp: trimmed_of_trim deletes_ws_strip)
qed

lemma entries_normal_iff:
  "list_all2 (entry_normal a) (filter (\<lambda>p. \<not> blank p) ps) us \<longleftrightarrow>
     us = map (if a then id else strip_ws) (filter (\<lambda>v. v \<noteq> []) (map trim ps))"
proof -
  let ?h = "\<lambda>p. (if a then id else strip_ws) (trim p)"
  let ?xs = "filter (\<lambda>p. \<not> blank p) ps"
  have nb: "\<not> blank (?xs ! i)" if "i < length ?xs" for i
    using nth_mem [OF that] by simp
  have "list_all2 (entry_normal a) ?xs us \<longleftrightarrow> us = map ?h ?xs"
    by (auto simp: list_all2_conv_all_nth list_eq_iff_nth_eq entry_normal_iff nb)
  also have "map ?h ?xs = map (if a then id else strip_ws) (filter (\<lambda>v. v \<noteq> []) (map trim ps))"
    by (simp add: filter_map comp_def trim_blank)
  finally show ?thesis .
qed


lemma js_join_nonempty: "us \<noteq> [] \<Longrightarrow> \<forall>u \<in> set us. u \<noteq> [] \<Longrightarrow> js_join sep us \<noteq> []"
  by (induction sep us rule: js_join.induct) auto

lemma normalizes_iff: "normalizes a s out \<longleftrightarrow> out = cleanCommaSeparatedValues s a"
proof
  assume "normalizes a s out"
  then obtain ps us where ps: "ps \<noteq> []" "\<forall>p \<in> set ps. CHR '','' \<notin> set p" "s = js_join '','' ps"
    and us: "list_all2 (entry_normal a) (filter (\<lambda>p. \<not> blank p) ps) us"
    and out: "out = js_join '','' us"
    unfolding normalizes_def by blast
  have "js_split CHR '','' s = ps" unfolding ps(3) using ps(1,2) by (rule js_split_join)
  with us out show "out = cleanCommaSeparatedValues s a"
    by (simp add: entries_normal_iff clean_pipeline)
next
  assume out: "out = cleanCommaSeparatedValues s a"
  let ?ps = "js_split CHR '','' s"
  let ?us = "map (if a then id else strip_ws) (filter (\<lambda>v. v \<noteq> []) (map trim ?ps))"
  have "?ps \<noteq> []" by (rule js_split_nonempty)
  moreover have "\<forall>p \<in> set ?ps. CHR '','' \<notin> set p" by (blast dest: js_split_pieces_no_sep)
  moreover have "s = js_join '','' ?ps" by (simp add: js_join_split)
  moreover have "list_all2 (entry_normal a) (filter (\<lambda>p. \<not> blank p) ?ps) ?us"
    by (simp only: entries_normal_iff)
  moreover have "out = js_join '','' ?us" by (simp only: out clean_pipeline)
  ultimately show "normalizes a s out" unfolding normalizes_def by blast
qed

lemma persists_iff: "persists a s v \<longleftrightarrow> v = or_null (cleanCommaSeparatedValues s a)"
  by (auto simp: persists_def normalizes_iff or_null_def)

lemma clean_empty_iff:
  "cleanCommaSeparatedValues s a = [] \<longleftrightarrow> (\<forall>c \<in> set s. is_space c \<or> c = CHR '','')"
proof -
  let ?ps = "js_split CHR '','' s"
  let ?ts = "filter (\<lambda>v. v \<noteq> []) (map trim ?ps)"
  let ?us = "map (if a then id else strip_ws) ?ts"
  have ne: "\<forall>u \<in> set ?us. u \<noteq> []"
  proof
    fix u assume "u \<in> set ?us"
    then have "clean_token a u" by (rule clean_tokens)
    then show "u \<noteq> []" by (simp add: clean_token_def)
  qed
  have "cleanCommaSeparatedValues s a = [] \<longleftrightarrow> ?us = []"
  proof
    assume "cleanCommaSeparatedValues s a = []"
    then have "js_join '','' ?us = []" by (simp only: clean_pipeline)
    with js_join_nonempty [OF _ ne, of "'',''"] show "?us = []" by blast
  next
    assume "?us = []"
    then show "cleanCommaSeparatedValues s a = []" by (simp only: clean_pipeline js_join.simps)
  qed
  also have "\<dots> \<longleftrightarrow> (\<forall>p \<in> set ?ps. blank p)"
    by (simp add: filter_empty_conv trim_blank)
  also have "\<dots> \<longleftrightarrow> (\<forall>c \<in> set s. c = CHR '','' \<or> is_space c)"
    unfolding blank_def by (rule js_split_chars)
  finally show ?thesis by auto
qed

lemma clean_result_tokens:
  assumes "cleanCommaSeparatedValues s a \<noteq> []"
  shows "\<forall>u \<in> set (js_split CHR '','' (cleanCommaSeparatedValues s a)). clean_token a u"
proof -
  let ?us = "map (if a then id else strip_ws)
               (filter (\<lambda>v. v \<noteq> []) (map trim (js_split CHR '','' s)))"
  have c: "cleanCommaSeparatedValues s a = js_join '','' ?us" by (rule clean_pipeline)
  have t: "\<forall>u \<in> set ?us. clean_token a u" by (blast intro: clean_tokens)
  from assms c have ne: "?us \<noteq> []" by auto
  from t have "\<forall>u \<in> set ?us. CHR '','' \<notin> set u" by (simp add: clean_token_def)
  with ne have "js_split CHR '','' (js_join '','' ?us) = ?us" by (rule js_split_join)
  with t show ?thesis by (simp only: c)
qed

lemma autosave_rows:
  assumes "userId st = Some uid" and "uid \<noteq> []"
    and "\<not> isValidatingCodes st"
    and "invalidCategoryItems st = []" and "invalidExcludedCategoryItems st = []"
    and "invalidLocationCodes st = []"
    and "getToken f = Token (Some tok)" and "tok \<noteq> []"
    and "\<not> user_accounts_update_failed f"
  shows "user_accounts (fst (autoSaveSerpSettings f db st)) =
           map (update_serp_settings uid st) (user_accounts db)"
  using assms by (simp add: autoSaveSerpSettings_def falsy_string_def Let_def)

text \<open>
  Claim C8. For every input string and both kinds of field, the cleaned value is the one and
  only value the specification describes: the entries between commas, each trimmed, the empty
  ones dropped, all white space deleted from an entry when the field disallows spaces, joined
  with commas. Every entry of a non-empty result is non-empty, trimmed, free of commas and,
  for a no-space field, free of white space. The stored value is null exactly when the input
  has no character other than white space and commas, and never the empty string. An autosave
  that reaches the store writes these values into the five columns of the user's account row
  (keywords and states keep inner spaces, the other three do not) and changes nothing else.
\<close>

theorem presave_normalisation:
  assumes "userId st = Some uid" and "uid \<noteq> []"
    and "\<not> isValidatingCodes st"
    and "invalidCategoryItems st = []" and "invalidExcludedCategoryItems st = []"
    and "invalidLocationCodes st = []"
    and "getToken f = Token (Some tok)" and "tok \<noteq> []"
    and "\<not> user_accounts_update_failed f"
  shows "(\<forall>out. normalizes a s out \<longleftrightarrow> out = cleanCommaSeparatedValues s a)
       \<and> (cleanCommaSeparatedValues s a \<noteq> [] \<longrightarrow>
            (\<forall>u \<in> set (js_split CHR '','' (cleanCommaSeparatedValues s a)). clean_token a u))
       \<and> persists a s (or_null (cleanCommaSeparatedValues s a))
       \<and> or_null (cleanCommaSeparatedValues s a) \<noteq> Some []
       \<and> (or_null (cleanCommaSeparatedValues s a) = None
            \<longleftrightarrow> (\<forall>c \<in> set s. is_space c \<or> c = CHR '',''))
       \<and> list_all2
           (\<lambda>acc acc'.
              if clerk_id acc = uid
              then acc' = acc\<lparr>serp_keywords := serp_keywords acc', serp_cat := serp_cat acc',
                              serp_exc_cat := serp_exc_cat acc',
                              serp_locations := serp_locations acc',
                              serp_states := serp_states acc'\<rparr>
                 \<and> persists True (serpKeywords st) (serp_keywords acc')
                 \<and> persists False (serpCategory st) (serp_cat acc')
                 \<and> persists False (serpExcludedCategory st) (serp_exc_cat acc')
                 \<and> persists False (serpLocations st) (serp_locations acc')
                 \<and> persists True (serpStates st) (serp_states acc')
              else acc' = acc)
           (user_accounts db) (user_accounts (fst (autoSaveSerpSettings f db st)))"
proof -
  have 1: "\<forall>out. normalizes a s out \<longleftrightarrow> out = cleanCommaSeparatedValues s a"
    by (simp add: normalizes_iff)
  have 2: "cleanCommaSeparatedValues s a \<noteq> [] \<longrightarrow>
            (\<forall>u \<in> set (js_split CHR '','' (cleanCommaSeparatedValues s a)). clean_token a u)"
    using clean_result_tokens by blast
  have 3: "persists a s (or_null (cleanCommaSeparatedValues s a))"
    by (simp add: persists_iff)
  have 4: "or_null (cleanCommaSeparatedValues s a) \<noteq> Some []"
    by (simp add: or_null_def)
  have 5: "or_null (cleanCommaSeparatedValues s a) = None
            \<longleftrightarrow> (\<forall>c \<in> set s. is_space c \<or> c = CHR '','')"
    by (simp add: or_null_def clean_empty_iff)
  have 6: "list_all2
           (\<lambda>acc acc'.
              if clerk_id acc = uid
              then acc' = acc\<lparr>serp_keywords := serp_keywords acc', serp_cat := serp_cat acc',
                              serp_exc_cat := serp_exc_cat acc',
                              serp_locations := serp_locations acc',
                              serp_states := serp_states acc'\<rparr>
                 \<and> persists True (serpKeywords st) (serp_keywords acc')
                 \<and> persists False (serpCategory st) (serp_cat acc')
                 \<and> persists False (serpExcludedCategory st) (serp_exc_cat acc')
                 \<and> persists False (serpLocations st) (serp_locations acc')
                 \<and> persists True (serpStates st) (serp_states acc')
              else acc' = acc)
           (user_accounts db) (user_accounts (fst (autoSaveSerpSettings f db st)))"
    unfolding autosave_rows [OF assms]
    by (simp add: list_all2_map2 list.rel_refl_strong update_serp_settings_def persists_iff)
  from 1 2 3 4 5 6 show ?thesis by blast
qed

lemma sample_clean:
  "cleanCommaSeparatedValues ''10 14221 , 90 61'' False = ''1014221,9061''"
  "cleanCommaSeparatedValues ''10 14221 , 90 61'' True = ''10 14221,90 61''"
  "cleanCommaSeparatedValues '' pool repair , ,spa  service'' True = ''pool repair,spa  service''"
  "cleanCommaSeparatedValues '' plumber ,pool_cleaner,, '' False = ''plumber,pool_cleaner''"
  "cleanCommaSeparatedValues '' , '' False = []"
  "cleanCommaSeparatedValues [] True = []"
  by code_simp+

theorem presave_normalisation_witness:
  "normalizes False ''10 14221 , 90 61'' ''1014221,9061''
   \<and> \<not> normalizes False ''10 14221 , 90 61'' ''10 14221,90 61''
   \<and> user_accounts (fst (autoSaveSerpSettings no_faults sample_db sample_settings)) =
     [sample_account\<lparr>serp_keywords := Some ''pool repair,spa  service'',
                     serp_cat := Some ''plumber,pool_cleaner'',
                     serp_exc_cat := None,
                     serp_locations := Some ''1014221,9061'',
                     serp_states := None\<rparr>]"
proof -
  have h: "userId sample_settings = Some ''user_a''" "''user_a'' \<noteq> []"
    "\<not> isValidatingCodes sample_settings" "invalidCategoryItems sample_settings = []"
    "invalidExcludedCategoryItems sample_settings = []" "invalidLocationCodes sample_settings = []"
    "getToken no_faults = Token (Some ''jwt'')" "''jwt'' \<noteq> []"
    "\<not> user_accounts_update_failed no_faults"
    by (simp_all add: sample_settings_def no_faults_def)
  note t = presave_normalisation [OF h, of False "''10 14221 , 90 61''" sample_db]
  have f: "serpKeywords sample_settings = '' pool repair , ,spa  service''"
    "serpCategory sample_settings = '' plumber ,pool_cleaner,, ''"
    "serpExcludedCategory sample_settings = '' , ''"
    "serpLocations sample_settings = ''10 14221 , 90 61''"
    "serpStates sample_settings = []"
    by (simp_all add: sample_settings_def)
  from t have n: "\<forall>out. normalizes False ''10 14221 , 90 61'' out \<longleftrightarrow>
                    out = cleanCommaSeparatedValues ''10 14221 , 90 61'' False" by blast
  have a: "normalizes False ''10 14221 , 90 61'' ''1014221,9061''"
    "\<not> normalizes False ''10 14221 , 90 61'' ''10 14221,90 61''"
    by (simp_all add: n sample_clean)
  from t have r: "list_all2
           (\<lambda>acc acc'.
              if clerk_id acc = ''user_a''
              then acc' = acc\<lparr>serp_keywords := serp_keywords acc', serp_cat := serp_cat acc',
                              serp_exc_cat := serp_exc_cat acc',
                              serp_locations := serp_locations acc',
                              serp_states := serp_states acc'\<rparr>
                 \<and> persists True (serpKeywords sample_settings) (serp_keywords acc')
                 \<and> persists False (serpCategory sample_settings) (serp_cat acc')
                 \<and> persists False (serpExcludedCategory sample_settings) (serp_exc_cat acc')
                 \<and> persists False (serpLocations sample_settings) (serp_locations acc')
                 \<and> persists True (serpStates sample_settings) (serp_states acc')
              else acc' = acc)
           (user_accounts sample_db)
           (user_accounts (fst (autoSaveSerpSettings no_faults sample_db sample_settings)))"
    by blast
  then obtain acc' where
    rows: "user_accounts (fst (autoSaveSerpSettings no_faults sample_db sample_settings)) = [acc']"
    and acc': "acc' = sample_account\<lparr>serp_keywords := serp_keywords acc', serp_cat := serp_cat acc',
                              serp_exc_cat := serp_exc_cat acc',
                              serp_locations := serp_locations acc',
                              serp_states := serp_states acc'\<rparr>"
      "persists True (serpKeywords sample_settings) (serp_keywords acc')"
      "persists False (serpCategory sample_settings) (serp_cat acc')"
      "persists False (serpExcludedCategory sample_settings) (serp_exc_cat acc')"
      "persists False (serpLocations sample_settings) (serp_locations acc')"
      "persists True (serpStates sample_settings) (serp_states acc')"
    by (auto simp: sample_db_def sample_account_def list_all2_Cons1)
  from acc'(2-6) have v: "serp_keywords acc' = Some ''pool repair,spa  service''"
    "serp_cat acc' = Some ''plumber,pool_cleaner''"
    "serp_exc_cat acc' = None"
    "serp_locations acc' = Some ''1014221,9061''"
    "serp_states acc' = None"
    by (simp_all add: persists_iff f sample_clean or_null_def)
  from acc'(1) v have "acc' = sample_account\<lparr>serp_keywords := Some ''pool repair,spa  service'',
                     serp_cat := Some ''plumber,pool_cleaner'',
                     serp_exc_cat := None,
                     serp_locations := Some ''1014221,9061'',
                     serp_states := None\<rparr>" by simp
  with rows a show ?thesis by simp
qed


section \<open>Autosave guard\<close>

text \<open>
  Claim C7. In every state in which location-code validation is in flight or one of the three
  invalid-item lists is non-empty, the autosave effect arms no timer, and a call of
  \<^verbatim>\<open>autoSaveSerpSettings\<close> leaves the store and the whole page state (error and message
  included) as they were.
\<close>

theorem autosave_suppressed:
  assumes "isValidatingCodes st \<or> invalidCategoryItems st \<noteq> []
           \<or> invalidExcludedCategoryItems st \<noteq> [] \<or> invalidLocationCodes st \<noteq> []"
  shows "autoSaveEffect st = None \<and> autoSaveSerpSettings f db st = (db, st)"
  using assms by (auto simp: autoSaveEffect_def autoSaveSerpSettings_def)

theorem autosave_suppressed_witness:
  "isValidatingCodes validating_settings \<and>
   autoSaveEffect validating_settings = None \<and>
   autoSaveSerpSettings no_faults sample_db validating_settings = (sample_db, validating_settings)"
  using autosave_suppressed [of validating_settings no_faults sample_db]
  by (simp add: validating_settings_def)


section \<open>The matcher decides the language\<close>

lemma nullable_lang: "nullable r \<longleftrightarrow> [] \<in> lang r"
proof (induction r)
  case (Star r)
  show ?case by (simp add: star.star_Nil)
qed auto

lemma star_Cons_split:
  assumes "x # w \<in> star A"
  shows "\<exists>u v. w = u @ v \<and> x # u \<in> A \<and> v \<in> star A"
  using assms
proof (induction "x # w" arbitrary: w rule: star.induct)
  case (star_app u v)
  show ?case
  proof (cases u)
    case Nil
    with star_app show ?thesis by simp
  next
    case (Cons a u')
    with star_app.hyps(1,2,4) show ?thesis by auto
  qed
qed

lemma star_Cons_iff:
  "x # w \<in> star A \<longleftrightarrow> (\<exists>u v. w = u @ v \<and> x # u \<in> A \<and> v \<in> star A)"
proof
  assume "x # w \<in> star A"
  then show "\<exists>u v. w = u @ v \<and> x # u \<in> A \<and> v \<in> star A" by (rule star_Cons_split)
next
  assume "\<exists>u v. w = u @ v \<and> x # u \<in> A \<and> v \<in> star A"
  then obtain u v where "w = u @ v" "x # u \<in> A" "v \<in> star A" by blast
  then show "x # w \<in> star A" using star.star_app [of "x # u" A v] by simp
qed

lemma lang_deriv: "w \<in> lang (deriv x r) \<longleftrightarrow> x # w \<in> lang r"
proof (induction r arbitrary: w)
  case (Seq r s)
  show ?case
  proof (cases "nullable r")
    case True
    then have "[] \<in> lang r" by (simp add: nullable_lang)
    then show ?thesis using Seq True
      by (auto simp: Cons_eq_append_conv)
  next
    case False
    then have "[] \<notin> lang r" by (simp add: nullable_lang)
    then show ?thesis using Seq False
      by (auto simp: Cons_eq_append_conv)
  qed
next
  case (Star r)
  then show ?case by (auto simp: star_Cons_iff)
qed auto

lemma rx_test_lang: "rx_test r s \<longleftrightarrow> s \<in> lang r"
  by (induction s arbitrary: r) (simp_all add: nullable_lang lang_deriv)

lemma star_singletons: "star {[c] | c. P c} = {w. \<forall>c \<in> set w. P c}"
proof (rule set_eqI, rule iffI)
  fix w assume "w \<in> star {[c] | c. P c}"
  then show "w \<in> {w. \<forall>c \<in> set w. P c}" by (induction rule: star.induct) auto
next
  fix w assume "w \<in> {w. \<forall>c \<in> set w. P c}"
  then have "\<forall>c \<in> set w. P c" by simp
  then show "w \<in> star {[c] | c. P c}"
  proof (induction w)
    case Nil
    show ?case by (rule star.star_Nil)
  next
    case (Cons a w)
    then have "[a] \<in> {[c] | c. P c}" and "w \<in> star {[c] | c. P c}" by auto
    then have "[a] @ w \<in> star {[c] | c. P c}" by (rule star.star_app)
    then show ?case by simp
  qed
qed

lemma lang_lower_us: "lang lower_us = {[c] | c. category_char c}"
  by (auto simp: lower_us_def category_char_def)

lemma lang_Plus_lower_us: "lang (Plus lower_us) = {g. category_group g}"
proof -
  have "lang (Plus lower_us) =
          {u @ v | u v. u \<in> {[c] | c. category_char c} \<and> v \<in> {w. \<forall>c \<in> set w. category_char c}}"
    by (simp add: Plus_def lang_lower_us star_singletons)
  also have "\<dots> = {g. category_group g}"
  proof (rule set_eqI, rule iffI)
    fix g assume "g \<in> {u @ v | u v. u \<in> {[c] | c. category_char c} \<and> v \<in> {w. \<forall>c \<in> set w. category_char c}}"
    then show "g \<in> {g. category_group g}" by (auto simp: category_group_def)
  next
    fix g assume "g \<in> {g. category_group g}"
    then obtain a w where "g = a # w" "category_char a" "\<forall>c \<in> set w. category_char c"
      by (cases g) (auto simp: category_group_def)
    then have "g = [a] @ w \<and> [a] \<in> {[c] | c. category_char c} \<and> w \<in> {w. \<forall>c \<in> set w. category_char c}"
      by simp
    then show "g \<in> {u @ v | u v. u \<in> {[c] | c. category_char c} \<and> v \<in> {w. \<forall>c \<in> set w. category_char c}}"
      by blast
  qed
  finally show ?thesis .
qed

lemma star_comma_groups:
  "star {CHR '','' # g | g. category_group g} =
     {concat (map (\<lambda>g. CHR '','' # g) gs) | gs. \<forall>g \<in> set gs. category_group g}"
  (is "star ?A = ?B")
proof (rule set_eqI, rule iffI)
  fix w assume "w \<in> star ?A"
  then show "w \<in> ?B"
  proof (induction rule: star.induct)
    case star_Nil
    have "[] = concat (map (\<lambda>g. CHR '','' # g) []) \<and> (\<forall>g \<in> set ([]::string list). category_group g)"
      by simp
    then show ?case by blast
  next
    case (star_app u v)
    then obtain g gs where "u = CHR '','' # g" "category_group g"
      "v = concat (map (\<lambda>g. CHR '','' # g) gs)" "\<forall>g \<in> set gs. category_group g" by blast
    then have "u @ v = concat (map (\<lambda>g. CHR '','' # g) (g # gs)) \<and> (\<forall>h \<in> set (g # gs). category_group h)"
      by simp
    then show ?case by blast
  qed
next
  fix w assume "w \<in> ?B"
  then obtain gs where w: "w = concat (map (\<lambda>g. CHR '','' # g) gs)" and gs: "\<forall>g \<in> set gs. category_group g"
    by blast
  from gs show "w \<in> star ?A" unfolding w
  proof (induction gs)
    case Nil
    show ?case by (simp add: star.star_Nil)
  next
    case (Cons g gs)
    then have "CHR '','' # g \<in> ?A" and "concat (map (\<lambda>g. CHR '','' # g) gs) \<in> star ?A" by auto
    then have "(CHR '','' # g) @ concat (map (\<lambda>g. CHR '','' # g) gs) \<in> star ?A"
      by (rule star.star_app)
    then show ?case by simp
  qed
qed

lemma js_join_Cons: "js_join '','' (g # gs) = g @ concat (map (\<lambda>g. CHR '','' # g) gs)"
  by (induction gs arbitrary: g) auto

lemma lang_custom_category_rx: "lang custom_category_rx = {s. category_groups s}"
proof -
  have 1: "lang (Seq (Chr CHR '','') (Plus lower_us)) = {CHR '','' # g | g. category_group g}"
    by (auto simp: lang_Plus_lower_us)
  have "lang custom_category_rx =
          {u @ v | u v. category_group u \<and>
             v \<in> {concat (map (\<lambda>g. CHR '','' # g) gs) | gs. \<forall>g \<in> set gs. category_group g}}"
    unfolding custom_category_rx_def lang.simps(6) [of "Plus lower_us"] lang.simps(7) 1 star_comma_groups
      lang_Plus_lower_us by simp
  also have "\<dots> = {s. category_groups s}"
  proof (rule set_eqI, rule iffI)
    fix s assume "s \<in> {u @ v | u v. category_group u \<and>
             v \<in> {concat (map (\<lambda>g. CHR '','' # g) gs) | gs. \<forall>g \<in> set gs. category_group g}}"
    then obtain u gs where "s = u @ concat (map (\<lambda>g. CHR '','' # g) gs)" "category_group u"
      "\<forall>g \<in> set gs. category_group g" by blast
    then have "u # gs \<noteq> [] \<and> (\<forall>g \<in> set (u # gs). g \<noteq> [] \<and> (\<forall>c \<in> set g. category_char c))
               \<and> s = js_join '','' (u # gs)"
      by (simp add: js_join_Cons category_group_def)
    then show "s \<in> {s. category_groups s}" unfolding category_groups_def by blast
  next
    fix s assume "s \<in> {s. category_groups s}"
    then obtain gs where gs: "gs \<noteq> []" "\<forall>g \<in> set gs. g \<noteq> [] \<and> (\<forall>c \<in> set g. category_char c)"
      "s = js_join '','' gs" unfolding category_groups_def by blast
    then obtain u us where "gs = u # us" by (cases gs) auto
    with gs have "s = u @ concat (map (\<lambda>g. CHR '','' # g) us) \<and> category_group u \<and>
       (\<forall>g \<in> set us. category_group g)"
      by (simp add: js_join_Cons category_group_def)
    then show "s \<in> {u @ v | u v. category_group u \<and>
             v \<in> {concat (map (\<lambda>g. CHR '','' # g) gs) | gs. \<forall>g \<in> set gs. category_group g}}"
      by blast
  qed
  finally show ?thesis .
qed

lemma custom_category_rx_test: "rx_test custom_category_rx s \<longleftrightarrow> category_groups s"
  by (simp add: rx_test_lang lang_custom_category_rx)


section \<open>Custom category validation\<close>

lemma custom_category_samples:
  "rx_test custom_category_rx ''plumber,electrician''"
  "\<not> rx_test custom_category_rx ''plumber, electrician''"
  "\<not> rx_test custom_category_rx ''Plumber,electrician''"
  "\<not> rx_test custom_category_rx ''plumber,electrician,''"
  "trim ''plumber, electrician'' \<noteq> []"
  "trim ''Plumber,electrician'' \<noteq> []"
  "trim ''plumber,electrician,'' \<noteq> []"
  "trim [] = []"
  by code_simp+

lemma validateCustomCategory_error:
  "customCategoryError (validateCustomCategory v st) = [] \<longleftrightarrow> trim v = [] \<or> rx_test custom_category_rx v"
  by (simp add: validateCustomCategory_def Let_def)

text \<open>
  Claim C5. The validator of the custom category field clears the error exactly for the
  strings that are empty after trimming or consist of one or more groups of lowercase letters
  and underscores joined by single commas; it never changes whether the dialog is shown; a
  string it rejects makes \<^verbatim>\<open>confirmExcludeLeads\<close> return without any change. The five
  sample strings of the specification are classified as stated.
\<close>

theorem custom_category_validation:
  "(customCategoryError (validateCustomCategory v st) = [] \<longleftrightarrow> trim v = [] \<or> category_groups v)
   \<and> excludeDialogOpen (validateCustomCategory v st) = excludeDialogOpen st
   \<and> customCategory (validateCustomCategory v st) = v
   \<and> (customCategory st = v \<and> \<not> (trim v = [] \<or> category_groups v)
        \<longrightarrow> confirmExcludeLeads now f f' db st = (db, st))
   \<and> customCategoryError (validateCustomCategory ''plumber,electrician'' st) = []
   \<and> customCategoryError (validateCustomCategory [] st) = []
   \<and> customCategoryError (validateCustomCategory ''plumber, electrician'' st) \<noteq> []
   \<and> customCategoryError (validateCustomCategory ''Plumber,electrician'' st) \<noteq> []
   \<and> customCategoryError (validateCustomCategory ''plumber,electrician,'' st) \<noteq> []"
proof -
  have 1: "customCategoryError (validateCustomCategory v st) = [] \<longleftrightarrow> trim v = [] \<or> category_groups v"
    by (simp add: validateCustomCategory_error custom_category_rx_test)
  have 2: "excludeDialogOpen (validateCustomCategory v st) = excludeDialogOpen st"
    "customCategory (validateCustomCategory v st) = v"
    by (simp_all add: validateCustomCategory_def Let_def)
  have 3: "customCategory st = v \<and> \<not> (trim v = [] \<or> category_groups v)
        \<longrightarrow> confirmExcludeLeads now f f' db st = (db, st)"
    by (simp add: confirmExcludeLeads_def custom_category_rx_test)
  have 4: "customCategoryError (validateCustomCategory ''plumber,electrician'' st) = []"
    "customCategoryError (validateCustomCategory [] st) = []"
    "customCategoryError (validateCustomCategory ''plumber, electrician'' st) \<noteq> []"
    "customCategoryError (validateCustomCategory ''Plumber,electrician'' st) \<noteq> []"
    "customCategoryError (validateCustomCategory ''plumber,electrician,'' st) \<noteq> []"
    by (simp_all only: validateCustomCategory_error custom_category_samples simp_thms)
  from 1 2 3 4 show ?thesis by blast
qed

theorem custom_category_validation_witness:
  "customCategory dialog_page = ''plumber, electrician''
   \<and> \<not> category_groups ''plumber, electrician''
   \<and> confirmExcludeLeads 2000 no_faults no_faults small_db dialog_page = (small_db, dialog_page)
   \<and> excludeDialogOpen (validateCustomCategory ''plumber, electrician'' dialog_page)
   \<and> category_groups ''plumber,electrician''"
proof -
  note t = custom_category_validation [of "''plumber, electrician''" dialog_page 2000 no_faults no_faults small_db]
  note u = custom_category_validation [of "''plumber,electrician''" dialog_page 2000 no_faults no_faults small_db]
  have c: "customCategory dialog_page = ''plumber, electrician''" "excludeDialogOpen dialog_page"
    by (simp_all add: dialog_page_def)
  have ne: "trim ''plumber, electrician'' \<noteq> []" "trim ''plumber,electrician'' \<noteq> []" by code_simp+
  from t ne have bad: "\<not> category_groups ''plumber, electrician''" by blast
  from u ne have good: "category_groups ''plumber,electrician''" by blast
  from t c bad ne good show ?thesis by simp
qed


section \<open>Pagination\<close>

lemma js_slice_length: "a \<le> b \<Longrightarrow> length (js_slice xs a b) \<le> nat (b - a)"
  by (auto simp: js_slice_def Let_def min_def max_def)

lemma paginated_length: "0 \<le> p \<Longrightarrow> length (paginatedUserLeads xs k p) \<le> nat p"
  using js_slice_length [of "(k - 1) * p" "(k - 1) * p + p" xs]
  by (simp add: paginatedUserLeads_def Let_def)

lemma js_slice_nonneg:
  "0 \<le> a \<Longrightarrow> a \<le> b \<Longrightarrow> js_slice xs a b = take (nat (b - a)) (drop (nat a) xs)"
proof (cases "a \<le> int (length xs)")
  case True
  assume "0 \<le> a" "a \<le> b"
  with True show ?thesis
    by (auto simp: js_slice_def Let_def min_def max_def)
next
  case False
  assume "0 \<le> a" "a \<le> b"
  with False show ?thesis
    by (auto simp: js_slice_def Let_def min_def max_def)
qed

lemma paginated_take_drop:
  assumes "0 < p"
  shows "paginatedUserLeads xs (int i + 1) p = take (nat p) (drop (i * nat p) xs)"
proof -
  have "0 \<le> int i * p" using assms by simp
  moreover have "nat (int i * p) = i * nat p" using assms by (simp add: nat_mult_distrib)
  ultimately show ?thesis
    using js_slice_nonneg [of "int i * p" "int i * p + p" xs] assms
    by (simp add: paginatedUserLeads_def Let_def)
qed

lemma concat_chunks: "concat (map (\<lambda>i. take m (drop (i * m) xs)) [0..<n]) = take (n * m) xs"
proof (induction n)
  case 0
  show ?case by simp
next
  case (Suc n)
  have "Suc n * m = n * m + m" by simp
  then have "take (Suc n * m) xs = take (n * m) xs @ take m (drop (n * m) xs)"
    by (simp only: take_add)
  with Suc show ?case by simp
qed

lemma upto_from_one: "[1..int n] = map (\<lambda>i. int i + 1) [0..<n]"
proof (induction n)
  case 0
  show ?case by simp
next
  case (Suc n)
  have "[1..int (Suc n)] = [1..int n] @ [int n + 1]"
    using upto_rec2 [of 1 "int n + 1"] by (simp add: add.commute)
  with Suc show ?case by simp
qed

lemma math_ceil_div_pos:
  "0 < p \<Longrightarrow> math_ceil_div n p = Num \<lceil>real n / real_of_int p\<rceil>"
proof -
  assume "0 < p"
  have "\<lceil>real_of_int (int n) / real_of_int p\<rceil> = - (- int n div p)"
    by (rule ceiling_divide_eq_div)
  with \<open>0 < p\<close> show ?thesis by (simp add: math_ceil_div_def)
qed

lemma pages_cover:
  assumes "0 < p"
  shows "int (length xs) \<le> \<lceil>real (length xs) / real_of_int p\<rceil> * p"
proof -
  have "real (length xs) / real_of_int p \<le> real_of_int \<lceil>real (length xs) / real_of_int p\<rceil>"
    by (rule le_of_int_ceiling)
  then have "real (length xs) \<le> real_of_int \<lceil>real (length xs) / real_of_int p\<rceil> * real_of_int p"
    using assms by (metis of_int_0_less_iff pos_divide_le_eq)
  then have "real_of_int (int (length xs)) \<le> real_of_int (\<lceil>real (length xs) / real_of_int p\<rceil> * p)"
    by simp
  then show ?thesis by (simp only: of_int_le_iff)
qed

lemma pages_concat:
  assumes "0 < p"
  shows "concat (map (\<lambda>k. paginatedUserLeads xs k p) [1..\<lceil>real (length xs) / real_of_int p\<rceil>]) = xs"
proof -
  let ?N = "\<lceil>real (length xs) / real_of_int p\<rceil>"
  have "0 \<le> real (length xs) / real_of_int p" using assms by simp
  then have "- 1 < real (length xs) / real_of_int p" by linarith
  then have N0: "0 \<le> ?N" by (simp only: zero_le_ceiling)
  define n where "n = nat ?N"
  have N: "?N = int n" using N0 by (simp add: n_def)
  have cover: "length xs \<le> n * nat p"
  proof -
    have "int (length xs) \<le> int n * p" using pages_cover [OF assms, of xs] N by simp
    also have "\<dots> = int (n * nat p)" using assms by simp
    finally show ?thesis by (simp only: of_nat_le_iff)
  qed
  have "concat (map (\<lambda>k. paginatedUserLeads xs k p) [1..int n]) =
        concat (map (\<lambda>i. take (nat p) (drop (i * nat p) xs)) [0..<n])"
    by (simp add: upto_from_one comp_def paginated_take_drop [OF assms])
  also have "\<dots> = take (n * nat p) xs" by (rule concat_chunks)
  also have "\<dots> = xs" using cover by simp
  finally show ?thesis by (simp only: N)
qed

lemma pages_sum:
  assumes "0 < p"
  shows "(\<Sum>k\<leftarrow>[1..\<lceil>real (length xs) / real_of_int p\<rceil>]. length (paginatedUserLeads xs k p)) = length xs"
proof -
  have "length (concat (map (\<lambda>k. paginatedUserLeads xs k p) [1..\<lceil>real (length xs) / real_of_int p\<rceil>])) = length xs"
    by (simp only: pages_concat [OF assms])
  then show ?thesis by (simp add: length_concat comp_def)
qed


lemma filteredUserLeads_flags [simp]:
  "filteredUserLeads f db (st\<lparr>isLoading := b, error := e\<rparr>) acct = filteredUserLeads f db st acct"
  by (simp add: filteredUserLeads_def)

lemma filteredUserLeads_none:
  "select_user_leads db acct (showExcludedLeads st) = [] \<Longrightarrow> filteredUserLeads f db st acct = []"
  by (simp add: filteredUserLeads_def)

lemma mergedLeads_Nil: "mergedLeads db [] = []"
  by (simp add: mergedLeads_def select_serp_leads_def)

lemma loadLeads_success:
  assumes "getToken f = Token (Some tok)" and "tok \<noteq> []"
    and "userAccountId st = Some acct" and "acct \<noteq> 0"
    and "user_leads_select_error f = None" and "serp_leads_filter_error f = None"
    and "serp_leads_page_error f = None"
    and "recordsPerPage st \<noteq> 0"
  shows "loadLeads f db st =
           st\<lparr>isLoading := False, error := [],
              totalRecords := length (filteredUserLeads f db st acct),
              totalPages := math_ceil_div (length (filteredUserLeads f db st acct)) (recordsPerPage st),
              leads := mergedLeads db
                 (paginatedUserLeads (filteredUserLeads f db st acct) (currentPage st) (recordsPerPage st))\<rparr>"
proof (cases "select_user_leads db acct (showExcludedLeads st) = []")
  case True
  then have F: "filteredUserLeads f db st acct = []" by (rule filteredUserLeads_none)
  have P: "paginatedUserLeads ([]::user_lead list) (currentPage st) (recordsPerPage st) = []"
    by (simp add: paginatedUserLeads_def js_slice_def Let_def)
  show ?thesis using assms True
    by (simp add: loadLeads_def loadLeads_queries_def falsy_string_def F P mergedLeads_Nil
        math_ceil_div_def)
next
  case False
  show ?thesis using assms False
    by (simp add: loadLeads_def loadLeads_queries_def falsy_string_def Let_def mergedLeads_Nil)
qed

lemma select_serp_leads_ids:
  "map sl_id (select_serp_leads db ids) = filter (\<lambda>i. i \<in> set ids) (map sl_id (serp_leads_v2 db))"
  by (simp add: select_serp_leads_def filter_map comp_def)

lemma length_mergedLeads: "length (mergedLeads db page) = length (select_serp_leads db (map ul_lead_id page))"
  by (simp add: mergedLeads_def Let_def)

lemma mergedLeads_bound:
  assumes "distinct (map sl_id (serp_leads_v2 db))"
  shows "length (mergedLeads db page) \<le> length page"
proof -
  let ?ids = "map ul_lead_id page"
  let ?rows = "map sl_id (select_serp_leads db ?ids)"
  have d: "distinct ?rows" using assms by (simp add: select_serp_leads_ids)
  have "set ?rows \<subseteq> set ?ids" by (auto simp: select_serp_leads_ids)
  then have "card (set ?rows) \<le> card (set ?ids)" by (simp add: card_mono)
  also have "\<dots> \<le> length ?ids" by (rule card_length)
  finally have le: "card (set ?rows) \<le> length ?ids" .
  have c: "card (set ?rows) = length ?rows" using d by (rule distinct_card)
  from c le have "length ?rows \<le> length ?ids" by linarith
  then have "length (select_serp_leads db ?ids) \<le> length page" by (simp only: length_map)
  then show ?thesis by (simp only: length_mergedLeads)
qed

lemma mergedLeads_all:
  assumes "distinct (map sl_id (serp_leads_v2 db))"
    and "distinct (map ul_lead_id page)"
    and "set (map ul_lead_id page) \<subseteq> set (map sl_id (serp_leads_v2 db))"
  shows "length (mergedLeads db page) = length page"
proof -
  let ?ids = "map ul_lead_id page"
  let ?rows = "map sl_id (select_serp_leads db ?ids)"
  have d: "distinct ?rows" using assms(1) by (simp add: select_serp_leads_ids)
  have "set ?rows = set ?ids" using assms(3) by (auto simp: select_serp_leads_ids)
  then have e: "card (set ?rows) = card (set ?ids)" by (simp only:)
  have c: "card (set ?rows) = length ?rows" using d by (rule distinct_card)
  have c': "card (set ?ids) = length ?ids" using assms(2) by (rule distinct_card)
  from e c c' have "length ?rows = length ?ids" by linarith
  then have "length (select_serp_leads db ?ids) = length page" by (simp only: length_map)
  then show ?thesis by (simp only: length_mergedLeads)
qed

lemma filteredUserLeads_all:
  assumes "\<not> showExcludedLeads st"
    and "\<forall>ul \<in> set (select_user_leads db acct False).
           ul_lead_id ul \<in> leadsWithEmailSet (serp_leads_v2 db)"
    and "showEmailedLeads st \<or>
         (\<forall>ul \<in> set (select_user_leads db acct False).
            Some (ul_lead_id ul) \<notin> set (emailedLeadIds f db acct))"
  shows "filteredUserLeads f db st acct = select_user_leads db acct False"
proof -
  let ?A = "select_user_leads db acct False"
  have w: "ul_lead_id ul \<in> leadsWithEmailSet (select_serp_leads db (map ul_lead_id ?A))"
    if "ul \<in> set ?A" for ul
  proof -
    from that assms(2) obtain l where l: "l \<in> set (serp_leads_v2 db)" "has_valid_email l"
      "sl_id l = ul_lead_id ul"
      by (auto simp: leadsWithEmailSet_def)
    with that have "l \<in> set (filter has_valid_email (select_serp_leads db (map ul_lead_id ?A)))"
      by (auto simp: select_serp_leads_def)
    then have "sl_id l \<in> leadsWithEmailSet (select_serp_leads db (map ul_lead_id ?A))"
      unfolding leadsWithEmailSet_def by (simp only: set_map image_eqI)
    with l(3) show ?thesis by simp
  qed
  show ?thesis
    unfolding filteredUserLeads_def Let_def using assms(1,3)
    by (auto simp: keep_user_lead_def w intro!: filter_True)
qed

lemma scenario_sizes:
  assumes "length xs = 120"
  shows "length (paginatedUserLeads xs 1 50) = 50" "length (paginatedUserLeads xs 3 50) = 20"
    "math_ceil_div (length xs) 50 = Num 3"
  using assms by (simp_all add: paginatedUserLeads_def js_slice_def Let_def math_ceil_div_def)


lemma nat_to_string_small: "n < 10 \<Longrightarrow> nat_to_string n = [char_of (48 + n)]"
  by (subst nat_to_string.simps) simp

lemma nat_to_string_big:
  "\<not> n < 10 \<Longrightarrow> nat_to_string n = nat_to_string (n div 10) @ [char_of (48 + n mod 10)]"
  by (subst nat_to_string.simps) simp

lemma nat_to_string_nonempty: "nat_to_string n \<noteq> []"
  by (cases "n < 10") (simp_all add: nat_to_string_small nat_to_string_big)

lemma digit_inj:
  assumes "a < 10" and "b < 10" and "(char_of (48 + a) :: char) = char_of (48 + b)"
  shows "a = (b::nat)"
proof -
  have "(of_char (char_of (48 + a) :: char) :: nat) = of_char (char_of (48 + b) :: char)"
    using assms(3) by (rule arg_cong)
  then have "(48 + a) mod 256 = (48 + b) mod 256" by (simp only: of_char_of)
  moreover have "(48 + a) mod 256 = 48 + a" using assms(1) by (intro mod_less) linarith
  moreover have "(48 + b) mod 256 = 48 + b" using assms(2) by (intro mod_less) linarith
  ultimately show ?thesis by linarith
qed

lemma nat_to_string_inj: "nat_to_string n = nat_to_string m \<Longrightarrow> n = m"
proof (induction n arbitrary: m rule: less_induct)
  case (less n)
  note eq = less.prems
  show ?case
  proof (cases "n < 10")
    case small: True
    show ?thesis
    proof (cases "m < 10")
      case True
      from eq have "(char_of (48 + n) :: char) = char_of (48 + m)"
        by (simp only: nat_to_string_small [OF small] nat_to_string_small [OF True] list.inject)
      with small True show ?thesis by (rule digit_inj)
    next
      case False
      from eq have "[char_of (48 + n)] = nat_to_string (m div 10) @ [char_of (48 + m mod 10)]"
        by (simp only: nat_to_string_small [OF small] nat_to_string_big [OF False])
      then have "nat_to_string (m div 10) = []" by (simp add: Cons_eq_append_conv)
      with nat_to_string_nonempty show ?thesis by blast
    qed
  next
    case big: False
    show ?thesis
    proof (cases "m < 10")
      case True
      from eq have "nat_to_string (n div 10) @ [char_of (48 + n mod 10)] = [char_of (48 + m)]"
        by (simp only: nat_to_string_small [OF True] nat_to_string_big [OF big])
      then have "nat_to_string (n div 10) = []" by (simp add: append_eq_Cons_conv)
      with nat_to_string_nonempty show ?thesis by blast
    next
      case False
      from eq have "nat_to_string (n div 10) @ [char_of (48 + n mod 10)] =
            nat_to_string (m div 10) @ [char_of (48 + m mod 10)]"
        by (simp only: nat_to_string_big [OF False] nat_to_string_big [OF big])
      then have p: "nat_to_string (n div 10) = nat_to_string (m div 10)"
        and d: "(char_of (48 + n mod 10) :: char) = char_of (48 + m mod 10)"
        by (simp_all only: append1_eq_conv)
      have "n div 10 < n" using big by simp
      from less.IH [OF this p] have q: "n div 10 = m div 10" .
      have "n mod 10 < 10" "m mod 10 < 10" by simp_all
      then have r: "n mod 10 = m mod 10" using d by (rule digit_inj)
      have "n = 10 * (n div 10) + n mod 10" by simp
      also have "\<dots> = 10 * (m div 10) + m mod 10" by (simp only: q r)
      also have "\<dots> = m" by simp
      finally show ?thesis .
    qed
  qed
qed

lemma big_db_active:
  "select_user_leads big_db 7 False =
     rev (map (\<lambda>i. \<lparr>ul_id = i, ul_user_id = 7, ul_lead_id = nat_to_string i, ul_excluded = None\<rparr>) [1..<121])"
proof -
  let ?g = "\<lambda>i. \<lparr>ul_id = i, ul_user_id = 7::nat, ul_lead_id = nat_to_string i, ul_excluded = None::nat option\<rparr>"
  have s: "sorted (map ul_id (map ?g [1..<121]))" by (simp add: comp_def del: upt.simps)
  have "sort_key ul_id (map ?g [1..<121]) = map ?g [1..<121]"
    using s by (rule sort_key_id_if_sorted)
  then show ?thesis
    by (simp add: select_user_leads_def big_db_def filter_map comp_def del: upt.simps)
qed

lemma big_db_catalogue: "map sl_id (serp_leads_v2 big_db) = map nat_to_string [1..<121]"
  by (simp add: big_db_def comp_def del: upt.simps)

lemma big_db_distinct_leads: "distinct (map sl_id (serp_leads_v2 big_db))"
  unfolding big_db_catalogue
  by (simp add: distinct_map inj_on_def nat_to_string_inj del: upt.simps)

lemma big_db_length: "length (select_user_leads big_db 7 False) = 120"
  by (simp add: big_db_active del: upt.simps)

lemma big_db_distinct_assoc: "distinct (map ul_lead_id (select_user_leads big_db 7 False))"
  by (simp add: big_db_active comp_def rev_map [symmetric] distinct_map inj_on_def nat_to_string_inj
      del: upt.simps)

lemma big_db_emails:
  "\<forall>ul \<in> set (select_user_leads big_db 7 False). ul_lead_id ul \<in> leadsWithEmailSet (serp_leads_v2 big_db)"
proof -
  have "filter has_valid_email (serp_leads_v2 big_db) = serp_leads_v2 big_db"
    by (rule filter_True) (auto simp: big_db_def has_valid_email_def falsy_string_def)
  then have "leadsWithEmailSet (serp_leads_v2 big_db) = set (map nat_to_string [1..<121])"
    by (simp only: leadsWithEmailSet_def big_db_catalogue)
  then show ?thesis by (auto simp: big_db_active simp del: upt.simps)
qed


text \<open>
  Claim C1. When \<^verbatim>\<open>loadLeads\<close> runs to the end with a positive page size, the totals are
  those of the filtered, unpaginated association list: \<open>totalRecords\<close> is its length and
  \<open>totalPages\<close> is the ceiling of that length divided by the page size. The rows shown are
  the leads of the slice of the current page, at most a page size of them; every slice has at
  most page-size entries, the slices of pages 1 to \<open>totalPages\<close> concatenate to the filtered
  list and their lengths sum to \<open>totalRecords\<close>. With 120 active associations in normal
  view, one per lead, each lead with a valid email and none hidden by the emailed filter, and
  page size 50, page 1 shows 50 rows, there are 3 pages, and page 3 shows 20 rows.
\<close>

theorem pagination_consistent:
  assumes "getToken f = Token (Some tok)" and "tok \<noteq> []"
    and "userAccountId st = Some acct" and "acct \<noteq> 0"
    and "user_leads_select_error f = None" and "serp_leads_filter_error f = None"
    and "serp_leads_page_error f = None"
    and "distinct (map sl_id (serp_leads_v2 db))"
    and "0 < recordsPerPage st"
  shows
    "totalRecords (loadLeads f db st) = length (filteredUserLeads f db st acct)
     \<and> totalPages (loadLeads f db st) =
         Num \<lceil>real (length (filteredUserLeads f db st acct)) / real_of_int (recordsPerPage st)\<rceil>
     \<and> leads (loadLeads f db st) =
         mergedLeads db (paginatedUserLeads (filteredUserLeads f db st acct)
                           (currentPage st) (recordsPerPage st))
     \<and> length (leads (loadLeads f db st)) \<le> nat (recordsPerPage st)
     \<and> (\<forall>k. length (paginatedUserLeads (filteredUserLeads f db st acct) k (recordsPerPage st))
              \<le> nat (recordsPerPage st))
     \<and> concat (map (\<lambda>k. paginatedUserLeads (filteredUserLeads f db st acct) k (recordsPerPage st))
           [1..\<lceil>real (length (filteredUserLeads f db st acct)) / real_of_int (recordsPerPage st)\<rceil>])
         = filteredUserLeads f db st acct
     \<and> (\<Sum>k\<leftarrow>[1..\<lceil>real (length (filteredUserLeads f db st acct)) / real_of_int (recordsPerPage st)\<rceil>].
           length (paginatedUserLeads (filteredUserLeads f db st acct) k (recordsPerPage st)))
         = totalRecords (loadLeads f db st)
     \<and> (\<not> showExcludedLeads st \<and> recordsPerPage st = 50
         \<and> length (select_user_leads db acct False) = 120
         \<and> distinct (map ul_lead_id (select_user_leads db acct False))
         \<and> (\<forall>ul \<in> set (select_user_leads db acct False).
               ul_lead_id ul \<in> leadsWithEmailSet (serp_leads_v2 db))
         \<and> (showEmailedLeads st \<or>
              (\<forall>ul \<in> set (select_user_leads db acct False).
                 Some (ul_lead_id ul) \<notin> set (emailedLeadIds f db acct)))
         \<longrightarrow> totalRecords (loadLeads f db st) = 120
           \<and> totalPages (loadLeads f db st) = Num 3
           \<and> (currentPage st = 1 \<longrightarrow> length (leads (loadLeads f db st)) = 50)
           \<and> (currentPage st = 3 \<longrightarrow> length (leads (loadLeads f db st)) = 20))"
proof -
  let ?F = "filteredUserLeads f db st acct"
  let ?p = "recordsPerPage st"
  let ?st' = "loadLeads f db st"
  have p0: "?p \<noteq> 0" using assms(9) by simp
  note run = loadLeads_success [OF assms(1-7) p0, of db]
  have tr: "totalRecords ?st' = length ?F" by (simp add: run)
  have tp: "totalPages ?st' = math_ceil_div (length ?F) ?p" by (simp add: run)
  have ld: "leads ?st' = mergedLeads db (paginatedUserLeads ?F (currentPage st) ?p)"
    by (simp add: run)
  have tp': "totalPages ?st' = Num \<lceil>real (length ?F) / real_of_int ?p\<rceil>"
    by (simp only: tp math_ceil_div_pos [OF assms(9)])
  have pl: "length (paginatedUserLeads ?F k ?p) \<le> nat ?p" for k
    using assms(9) by (intro paginated_length) simp
  have rows: "length (leads ?st') \<le> nat ?p"
    using mergedLeads_bound [OF assms(8), of "paginatedUserLeads ?F (currentPage st) ?p"]
      pl [of "currentPage st"] unfolding ld by linarith
  have cc: "concat (map (\<lambda>k. paginatedUserLeads ?F k ?p) [1..\<lceil>real (length ?F) / real_of_int ?p\<rceil>]) = ?F"
    by (rule pages_concat [OF assms(9)])
  have sm: "(\<Sum>k\<leftarrow>[1..\<lceil>real (length ?F) / real_of_int ?p\<rceil>]. length (paginatedUserLeads ?F k ?p))
              = totalRecords ?st'"
    by (simp only: tr pages_sum [OF assms(9)])
  have sc: "totalRecords ?st' = 120 \<and> totalPages ?st' = Num 3
           \<and> (currentPage st = 1 \<longrightarrow> length (leads ?st') = 50)
           \<and> (currentPage st = 3 \<longrightarrow> length (leads ?st') = 20)"
    if h: "\<not> showExcludedLeads st" "?p = 50"
      "length (select_user_leads db acct False) = 120"
      "distinct (map ul_lead_id (select_user_leads db acct False))"
      "\<forall>ul \<in> set (select_user_leads db acct False).
               ul_lead_id ul \<in> leadsWithEmailSet (serp_leads_v2 db)"
      "showEmailedLeads st \<or>
              (\<forall>ul \<in> set (select_user_leads db acct False).
                 Some (ul_lead_id ul) \<notin> set (emailedLeadIds f db acct))"
  proof -
    let ?A = "select_user_leads db acct False"
    have FA: "?F = ?A" using h(1,5,6) by (rule filteredUserLeads_all)
    have len: "length ?F = 120" by (simp only: FA h(3))
    have page_ok: "length (mergedLeads db (paginatedUserLeads ?A (int i + 1) 50))
                     = length (paginatedUserLeads ?A (int i + 1) 50)" for i
    proof (rule mergedLeads_all [OF assms(8)])
      have pg: "paginatedUserLeads ?A (int i + 1) 50 = take 50 (drop (i * 50) ?A)"
        using paginated_take_drop [of 50 ?A i] by simp
      show "distinct (map ul_lead_id (paginatedUserLeads ?A (int i + 1) 50))"
        unfolding pg using h(4)
        by (simp only: take_map [symmetric] drop_map [symmetric] distinct_take distinct_drop)
      have "set (paginatedUserLeads ?A (int i + 1) 50) \<subseteq> set ?A"
        unfolding pg by (meson set_take_subset set_drop_subset subset_trans)
      moreover have "ul_lead_id ul \<in> set (map sl_id (serp_leads_v2 db))" if "ul \<in> set ?A" for ul
        using h(5) that by (auto simp: leadsWithEmailSet_def)
      ultimately show "set (map ul_lead_id (paginatedUserLeads ?A (int i + 1) 50))
                         \<subseteq> set (map sl_id (serp_leads_v2 db))"
        by auto
    qed
    have "totalRecords ?st' = 120" by (simp only: tr len)
    moreover have "totalPages ?st' = Num 3"
      by (simp only: tp h(2) scenario_sizes(3) [OF len])
    moreover have "length (leads ?st') = 50" if "currentPage st = 1"
      using page_ok [of 0] scenario_sizes(1) [OF len] by (simp add: ld that h(2) FA)
    moreover have "length (leads ?st') = 20" if "currentPage st = 3"
      using page_ok [of 2] scenario_sizes(2) [OF len] by (simp add: ld that h(2) FA)
    ultimately show ?thesis by blast
  qed
  from tr tp' ld rows pl cc sm sc show ?thesis by blast
qed

theorem pagination_consistent_witness:
  "length (leads (loadLeads no_faults big_db (initial_page\<lparr>userAccountId := Some 7\<rparr>))) = 50
   \<and> totalPages (loadLeads no_faults big_db (initial_page\<lparr>userAccountId := Some 7\<rparr>)) = Num 3
   \<and> totalRecords (loadLeads no_faults big_db (initial_page\<lparr>userAccountId := Some 7\<rparr>)) = 120
   \<and> length (leads (loadLeads no_faults big_db
                 (initial_page\<lparr>userAccountId := Some 7, currentPage := 3\<rparr>))) = 20"
proof -
  let ?s1 = "initial_page\<lparr>userAccountId := Some 7\<rparr>"
  let ?s3 = "initial_page\<lparr>userAccountId := Some 7, currentPage := 3\<rparr>"
  have g1: "getToken no_faults = Token (Some ''jwt'')" "''jwt'' \<noteq> []"
    "userAccountId ?s1 = Some 7" "(7::nat) \<noteq> 0"
    "user_leads_select_error no_faults = None" "serp_leads_filter_error no_faults = None"
    "serp_leads_page_error no_faults = None"
    "distinct (map sl_id (serp_leads_v2 big_db))"
    "0 < recordsPerPage ?s1"
    by (simp_all add: no_faults_def initial_page_def big_db_distinct_leads)
  have g3: "userAccountId ?s3 = Some 7" "0 < recordsPerPage ?s3"
    by (simp_all add: initial_page_def)
  have e: "emailedLeadIds no_faults big_db 7 = []"
    by (simp add: emailedLeadIds_def big_db_def)
  have sc1: "\<not> showExcludedLeads ?s1" "recordsPerPage ?s1 = 50" "currentPage ?s1 = 1"
    and sc3: "\<not> showExcludedLeads ?s3" "recordsPerPage ?s3 = 50" "currentPage ?s3 = 3"
    by (simp_all add: initial_page_def)
  have A: "length (select_user_leads big_db 7 False) = 120
         \<and> distinct (map ul_lead_id (select_user_leads big_db 7 False))
         \<and> (\<forall>ul \<in> set (select_user_leads big_db 7 False).
               ul_lead_id ul \<in> leadsWithEmailSet (serp_leads_v2 big_db))"
    using big_db_length big_db_distinct_assoc big_db_emails by blast
  have p1: "\<not> showExcludedLeads ?s1 \<and> recordsPerPage ?s1 = 50
         \<and> length (select_user_leads big_db 7 False) = 120
         \<and> distinct (map ul_lead_id (select_user_leads big_db 7 False))
         \<and> (\<forall>ul \<in> set (select_user_leads big_db 7 False).
               ul_lead_id ul \<in> leadsWithEmailSet (serp_leads_v2 big_db))
         \<and> (showEmailedLeads ?s1 \<or>
              (\<forall>ul \<in> set (select_user_leads big_db 7 False).
                 Some (ul_lead_id ul) \<notin> set (emailedLeadIds no_faults big_db 7)))"
    using A sc1(1,2) by (simp only: e) simp
  have p3: "\<not> showExcludedLeads ?s3 \<and> recordsPerPage ?s3 = 50
         \<and> length (select_user_leads big_db 7 False) = 120
         \<and> distinct (map ul_lead_id (select_user_leads big_db 7 False))
         \<and> (\<forall>ul \<in> set (select_user_leads big_db 7 False).
               ul_lead_id ul \<in> leadsWithEmailSet (serp_leads_v2 big_db))
         \<and> (showEmailedLeads ?s3 \<or>
              (\<forall>ul \<in> set (select_user_leads big_db 7 False).
                 Some (ul_lead_id ul) \<notin> set (emailedLeadIds no_faults big_db 7)))"
    using A sc3(1,2) by (simp only: e) simp
  note t1 = pagination_consistent [OF g1(1,2,3,4,5,6,7,8,9), THEN conjunct2, THEN conjunct2,
      THEN conjunct2, THEN conjunct2, THEN conjunct2, THEN conjunct2, THEN conjunct2, THEN mp, OF p1]
  note t3 = pagination_consistent [OF g1(1,2) g3(1) g1(4,5,6,7,8) g3(2), THEN conjunct2,
      THEN conjunct2, THEN conjunct2, THEN conjunct2, THEN conjunct2, THEN conjunct2,
      THEN conjunct2, THEN mp, OF p3]
  from t1 sc1(3) t3 sc3(3) show ?thesis by blast
qed


section \<open>The in-memory filter\<close>

lemma has_valid_email_spec: "has_valid_email l \<longleftrightarrow> valid_email_spec (email l)"
  by (auto simp: has_valid_email_def valid_email_spec_def falsy_string_def split: option.splits)

lemma select_user_leads_subset: "set (select_user_leads db acct b) \<subseteq> set (user_leads db)"
  by (auto simp: select_user_leads_def Let_def)

lemma emailed_iff_drafted:
  assumes "\<not> email_drafts_select_failed f" and "lid \<noteq> []"
  shows "Some lid \<in> set (emailedLeadIds f db acct) \<longleftrightarrow> already_drafted db acct lid"
proof
  assume "Some lid \<in> set (emailedLeadIds f db acct)"
  then show "already_drafted db acct lid"
    using assms by (auto simp: emailedLeadIds_def already_drafted_def)
next
  assume "already_drafted db acct lid"
  then obtain d where "d \<in> set (email_drafts db)" "ed_user_id d = acct" "ed_lead_id d = Some lid"
    by (auto simp: already_drafted_def)
  then show "Some lid \<in> set (emailedLeadIds f db acct)"
    using assms by (force simp: emailedLeadIds_def falsy_string_def)
qed

lemma with_email_iff:
  assumes "ul \<in> set A"
  shows "ul_lead_id ul \<in> leadsWithEmailSet (select_serp_leads db (map ul_lead_id A))
           \<longleftrightarrow> lead_has_valid_email db (ul_lead_id ul)"
proof
  assume "ul_lead_id ul \<in> leadsWithEmailSet (select_serp_leads db (map ul_lead_id A))"
  then show "lead_has_valid_email db (ul_lead_id ul)"
    by (auto simp: leadsWithEmailSet_def select_serp_leads_def lead_has_valid_email_def
        has_valid_email_spec)
next
  assume "lead_has_valid_email db (ul_lead_id ul)"
  then obtain l where "l \<in> set (serp_leads_v2 db)" "sl_id l = ul_lead_id ul" "has_valid_email l"
    by (auto simp: lead_has_valid_email_def has_valid_email_spec)
  then show "ul_lead_id ul \<in> leadsWithEmailSet (select_serp_leads db (map ul_lead_id A))"
    using assms by (force simp: leadsWithEmailSet_def select_serp_leads_def)
qed

lemma keep_user_lead_normal:
  "keep_user_lead False showEmailed showWithoutEmail emailed withEmail ul \<longleftrightarrow>
     (showEmailed \<or> Some (ul_lead_id ul) \<notin> set emailed)
     \<and> (showWithoutEmail \<or> ul_lead_id ul \<in> withEmail)"
  by (auto simp: keep_user_lead_def)

text \<open>
  Claim C9. In normal view the filtered list is the association list without the entries
  whose lead already has an email draft of the account (unless already emailed leads are
  shown) and then without the entries whose lead has no valid email, an email being valid when
  it is non-empty and not \<^verbatim>\<open>EmailNotFound\<close> (unless leads without email are shown); in
  excluded view it is the whole list of excluded associations. The draft query is assumed to
  have answered, and lead ids to be non-empty strings.
\<close>

theorem in_memory_filter:
  assumes "\<not> email_drafts_select_failed f" and "acct \<noteq> 0"
    and "\<forall>ul \<in> set (user_leads db). ul_lead_id ul \<noteq> []"
  shows "filteredUserLeads f db st acct = filtered_spec db st acct"
proof (cases "showExcludedLeads st")
  case True
  then show ?thesis
    by (simp add: filteredUserLeads_def filtered_spec_def keep_user_lead_def)
next
  case False
  let ?A = "select_user_leads db acct False"
  have ids: "ul_lead_id ul \<noteq> []" if "ul \<in> set ?A" for ul
    using that assms(3) select_user_leads_subset [of db acct False] by blast
  have keep: "keep_user_lead False (showEmailedLeads st) (showWithoutEmails st)
                (if \<not> showEmailedLeads st then emailedLeadIds f db acct else [])
                (leadsWithEmailSet (select_serp_leads db (map ul_lead_id ?A))) ul
              \<longleftrightarrow> (showEmailedLeads st \<or> \<not> already_drafted db acct (ul_lead_id ul))
                  \<and> (showWithoutEmails st \<or> lead_has_valid_email db (ul_lead_id ul))"
    if "ul \<in> set ?A" for ul
    by (simp add: keep_user_lead_normal with_email_iff [OF that]
        emailed_iff_drafted [OF assms(1) ids [OF that]])
  have "filteredUserLeads f db st acct =
          filter (\<lambda>ul. (showEmailedLeads st \<or> \<not> already_drafted db acct (ul_lead_id ul))
                      \<and> (showWithoutEmails st \<or> lead_has_valid_email db (ul_lead_id ul))) ?A"
    unfolding filteredUserLeads_def Let_def using False assms(2)
    by (simp add: keep cong: filter_cong)
  also have "\<dots> = filtered_spec db st acct"
    using False by (simp add: filtered_spec_def)
  finally show ?thesis .
qed

theorem in_memory_filter_witness:
  "filteredUserLeads no_faults small_db (initial_page\<lparr>userAccountId := Some 7\<rparr>) 7
     = [\<lparr>ul_id = 1, ul_user_id = 7, ul_lead_id = ''A'', ul_excluded = None\<rparr>]
   \<and> filteredUserLeads no_faults small_db
        (initial_page\<lparr>userAccountId := Some 7, showExcludedLeads := True\<rparr>) 7
     = [\<lparr>ul_id = 3, ul_user_id = 7, ul_lead_id = ''C'', ul_excluded = Some 1000\<rparr>]"
proof -
  have h: "\<not> email_drafts_select_failed no_faults" "(7::nat) \<noteq> 0"
    "\<forall>ul \<in> set (user_leads small_db). ul_lead_id ul \<noteq> []"
    by (simp_all add: no_faults_def small_db_def)
  have v1: "filtered_spec small_db (initial_page\<lparr>userAccountId := Some 7\<rparr>) 7
     = [\<lparr>ul_id = 1, ul_user_id = 7, ul_lead_id = ''A'', ul_excluded = None\<rparr>]"
    by code_simp
  have v2: "filtered_spec small_db (initial_page\<lparr>userAccountId := Some 7, showExcludedLeads := True\<rparr>) 7
     = [\<lparr>ul_id = 3, ul_user_id = 7, ul_lead_id = ''C'', ul_excluded = Some 1000\<rparr>]"
    by code_simp
  from in_memory_filter [OF h, of "initial_page\<lparr>userAccountId := Some 7\<rparr>"]
    in_memory_filter [OF h, of "initial_page\<lparr>userAccountId := Some 7, showExcludedLeads := True\<rparr>"]
  show ?thesis by (simp only: v1 v2)
qed


section \<open>Failure of the association fetch\<close>

text \<open>
  Claim C2, as stated, fails: with a loaded list of 120 records, a failing fetch of the
  associations reports the failure and leaves the total at 120.
\<close>

theorem fetch_failure_counterexample:
  "user_leads_select_error fetch_fails = Some ''connection reset''
   \<and> error (loadLeads fetch_fails small_db loaded_page) = ''Failed to load leads: connection reset''
   \<and> totalRecords (loadLeads fetch_fails small_db loaded_page) = 120
   \<and> totalRecords (loadLeads fetch_fails small_db loaded_page) \<noteq> 0"
  by (simp add: loadLeads_def loadLeads_queries_def fetch_fails_def no_faults_def loaded_page_def
      initial_page_def falsy_string_def)

text \<open>
  Claim C2, amended. If the primary association fetch fails, \<^verbatim>\<open>loadLeads\<close> reports the
  failure and leaves the total record count as it was; the call changes nothing but the error
  text and the loading flag.
\<close>

theorem fetch_failure_keeps_totals:
  assumes "getToken f = Token (Some tok)" and "tok \<noteq> []"
    and "userAccountId st = Some acct" and "acct \<noteq> 0"
    and "user_leads_select_error f = Some msg"
  shows "error (loadLeads f db st) = ''Failed to load leads: '' @ msg
       \<and> totalRecords (loadLeads f db st) = totalRecords st
       \<and> loadLeads f db st = st\<lparr>isLoading := False, error := ''Failed to load leads: '' @ msg\<rparr>"
  using assms by (simp add: loadLeads_def loadLeads_queries_def falsy_string_def)

theorem fetch_failure_keeps_totals_witness:
  "error (loadLeads fetch_fails small_db loaded_page) = ''Failed to load leads: connection reset''
   \<and> totalRecords (loadLeads fetch_fails small_db loaded_page) = 120
   \<and> loadLeads fetch_fails small_db loaded_page =
       loaded_page\<lparr>isLoading := False, error := ''Failed to load leads: connection reset''\<rparr>"
proof -
  have h: "getToken fetch_fails = Token (Some ''jwt'')" "''jwt'' \<noteq> []"
    "userAccountId loaded_page = Some 7" "(7::nat) \<noteq> 0"
    "user_leads_select_error fetch_fails = Some ''connection reset''"
    by (simp_all add: fetch_fails_def no_faults_def loaded_page_def initial_page_def)
  have t: "totalRecords loaded_page = 120" by (simp add: loaded_page_def)
  from fetch_failure_keeps_totals [OF h, of small_db] t show ?thesis by simp
qed

section \<open>Guards of Exclude and Restore\<close>





section \<open>Merging excluded categories\<close>

text \<open>What the merge does guarantee: stored entries first, then the chosen ones not yet stored.\<close>

lemma newSerpExcCat_pieces:
  "newSerpExcCat current toAdd =
     (let existing = filter (\<lambda>c. trim c \<noteq> [])
                       (js_split CHR '','' (case current of None \<Rightarrow> [] | Some s \<Rightarrow> s))
      in js_join '','' (existing @ filter (\<lambda>cat. cat \<notin> set existing) toAdd))"
proof -
  define existing where
    "existing = filter (\<lambda>c. trim c \<noteq> [])
                  (js_split CHR '','' (case current of None \<Rightarrow> [] | Some s \<Rightarrow> s))"
  have "newSerpExcCat current toAdd =
          js_join '','' (if length existing > 0
                         then existing @ filter (\<lambda>cat. cat \<notin> set existing) toAdd
                         else filter (\<lambda>cat. cat \<notin> set existing) toAdd)"
    unfolding newSerpExcCat_def Let_def existing_def by (rule refl)
  also have "\<dots> = js_join '','' (existing @ filter (\<lambda>cat. cat \<notin> set existing) toAdd)"
    by (cases existing) simp_all
  finally show ?thesis unfolding Let_def existing_def .
qed

lemma merged_distinct:
  "distinct existing \<Longrightarrow> distinct toAdd \<Longrightarrow>
   distinct (existing @ filter (\<lambda>cat. cat \<notin> set existing) toAdd)"
  by auto

text \<open>
  Claim C3. The merge of the chosen categories into the exclusion set is meant to leave no
  duplicates. The code drops only the chosen categories that the stored set already has:
  with \<^verbatim>\<open>roofer\<close> stored, the category \<^verbatim>\<open>plumber\<close> ticked and the custom string
  \<^verbatim>\<open>plumber,electrician\<close>, the stored value becomes
  \<^verbatim>\<open>roofer,plumber,plumber,electrician\<close>.
\<close>

theorem exclude_merge_duplicates:
  "map serp_exc_cat (user_accounts small_db) = [Some ''roofer'']
   \<and> selectedCategories exclude_page = [''plumber'']
   \<and> customCategory exclude_page = ''plumber,electrician''
   \<and> map serp_exc_cat
        (user_accounts (fst (confirmExcludeLeads 2000 no_faults no_faults small_db exclude_page)))
       = [Some ''roofer,plumber,plumber,electrician'']
   \<and> newSerpExcCat None [''plumber'', ''plumber''] = ''plumber,plumber''"
  by code_simp


section \<open>Restore\<close>

lemma loadLeads_frame:
  "successMessage (loadLeads f db st) = successMessage st"
  "alerts (loadLeads f db st) = alerts st"
  "selectedLeads (loadLeads f db st) = selectedLeads st"
  by (simp_all add: loadLeads_def loadLeads_queries_def Let_def
      split: token_result.splits option.splits)

lemma update_excluded_length: "length (update_excluded acct ids v rows) = length rows"
  by (simp add: update_excluded_def)

lemma update_excluded_nth:
  "i < length rows \<Longrightarrow>
   update_excluded acct ids v rows ! i =
     (if ul_user_id (rows ! i) = acct \<and> ul_lead_id (rows ! i) \<in> set ids
      then (rows ! i)\<lparr>ul_excluded := v\<rparr> else rows ! i)"
  by (simp add: update_excluded_def)

lemma restore_db:
  "fst (handleRestoreLeads f f' db st) = db \<or>
   (\<exists>acct. userAccountId st = Some acct \<and>
      fst (handleRestoreLeads f f' db st) =
        db\<lparr>user_leads := update_excluded acct (selectedLeads st) None (user_leads db)\<rparr>)"
  by (cases "userAccountId st")
     (auto simp: handleRestoreLeads_def Let_def falsy_number_def split: token_result.splits)

text \<open>
  Claim C6. For every selection, Restore leaves the account table (and with it
  \<^verbatim>\<open>serp_exc_cat\<close>) as it was; every association row is either unchanged or belongs to the
  account, has its lead in the selection and differs only in \<open>excluded\<close>, now NULL; a row
  whose \<open>excluded\<close> is already NULL is unchanged. When the call reaches the store (account,
  non-empty selection, token, no update error) exactly the matching rows are set to NULL and
  the call ends with the success notice and without an alert, whether or not any row was
  excluded before.
\<close>

theorem restore_frame:
  "user_accounts (fst (handleRestoreLeads f f' db st)) = user_accounts db
   \<and> length (user_leads (fst (handleRestoreLeads f f' db st))) = length (user_leads db)
   \<and> (\<forall>i < length (user_leads db).
         user_leads (fst (handleRestoreLeads f f' db st)) ! i = user_leads db ! i
         \<or> (userAccountId st = Some (ul_user_id (user_leads db ! i))
            \<and> ul_lead_id (user_leads db ! i) \<in> set (selectedLeads st)
            \<and> user_leads (fst (handleRestoreLeads f f' db st)) ! i
                = (user_leads db ! i)\<lparr>ul_excluded := None\<rparr>))
   \<and> (\<forall>i < length (user_leads db).
         ul_excluded (user_leads db ! i) = None \<longrightarrow>
         user_leads (fst (handleRestoreLeads f f' db st)) ! i = user_leads db ! i)
   \<and> (set_size (selectedLeads st) \<noteq> 0 \<and> userAccountId st = Some acct \<and> acct \<noteq> 0
       \<and> getToken f = Token (Some tok) \<and> tok \<noteq> [] \<and> \<not> user_leads_update_failed f
       \<longrightarrow> user_leads (fst (handleRestoreLeads f f' db st)) =
             map (\<lambda>ul. if ul_user_id ul = acct \<and> ul_lead_id ul \<in> set (selectedLeads st)
                        then ul\<lparr>ul_excluded := None\<rparr> else ul) (user_leads db)
           \<and> successMessage (snd (handleRestoreLeads f f' db st)) =
               ''Successfully restored '' @ nat_to_string (set_size (selectedLeads st))
                 @ '' lead'' @ plural_suffix (set_size (selectedLeads st)) @ ''!''
           \<and> alerts (snd (handleRestoreLeads f f' db st)) = alerts st
           \<and> selectedLeads (snd (handleRestoreLeads f f' db st)) = [])"
proof -
  let ?db' = "fst (handleRestoreLeads f f' db st)"
  let ?st' = "snd (handleRestoreLeads f f' db st)"
  note cases = restore_db [of f f' db st]
  have 1: "user_accounts ?db' = user_accounts db"
    using cases by auto
  have 2: "length (user_leads ?db') = length (user_leads db)"
    using cases by (auto simp: update_excluded_length)
  have 3: "user_leads ?db' ! i = user_leads db ! i
         \<or> (userAccountId st = Some (ul_user_id (user_leads db ! i))
            \<and> ul_lead_id (user_leads db ! i) \<in> set (selectedLeads st)
            \<and> user_leads ?db' ! i = (user_leads db ! i)\<lparr>ul_excluded := None\<rparr>)"
    if "i < length (user_leads db)" for i
    using cases that by (auto simp: update_excluded_nth split: if_splits)
  have 4: "user_leads ?db' ! i = user_leads db ! i"
    if "i < length (user_leads db)" "ul_excluded (user_leads db ! i) = None" for i
  proof -
    have "(user_leads db ! i)\<lparr>ul_excluded := None\<rparr> = user_leads db ! i"
      using that(2) by (cases "user_leads db ! i") simp
    with 3 [OF that(1)] show ?thesis by auto
  qed
  have 5: "user_leads ?db' =
             map (\<lambda>ul. if ul_user_id ul = acct \<and> ul_lead_id ul \<in> set (selectedLeads st)
                        then ul\<lparr>ul_excluded := None\<rparr> else ul) (user_leads db)
           \<and> successMessage ?st' =
               ''Successfully restored '' @ nat_to_string (set_size (selectedLeads st))
                 @ '' lead'' @ plural_suffix (set_size (selectedLeads st)) @ ''!''
           \<and> alerts ?st' = alerts st
           \<and> selectedLeads ?st' = []"
    if "set_size (selectedLeads st) \<noteq> 0" "userAccountId st = Some acct" "acct \<noteq> 0"
       "getToken f = Token (Some tok)" "tok \<noteq> []" "\<not> user_leads_update_failed f"
    using that
    by (simp add: handleRestoreLeads_def Let_def falsy_number_def falsy_string_def
        loadLeads_frame update_excluded_def)
  from 1 2 3 4 5 show ?thesis by blast
qed

theorem restore_frame_witness:
  "user_leads (fst (handleRestoreLeads no_faults no_faults small_db restore_page)) =
     [\<lparr>ul_id = 1, ul_user_id = 7, ul_lead_id = ''A'', ul_excluded = None\<rparr>,
      \<lparr>ul_id = 2, ul_user_id = 7, ul_lead_id = ''B'', ul_excluded = None\<rparr>,
      \<lparr>ul_id = 3, ul_user_id = 7, ul_lead_id = ''C'', ul_excluded = None\<rparr>,
      \<lparr>ul_id = 4, ul_user_id = 7, ul_lead_id = ''D'', ul_excluded = None\<rparr>,
      \<lparr>ul_id = 5, ul_user_id = 8, ul_lead_id = ''A'', ul_excluded = Some 900\<rparr>]
   \<and> user_accounts (fst (handleRestoreLeads no_faults no_faults small_db restore_page))
       = user_accounts small_db
   \<and> successMessage (snd (handleRestoreLeads no_faults no_faults small_db restore_page))
       = ''Successfully restored 2 leads!''
   \<and> alerts (snd (handleRestoreLeads no_faults no_faults small_db restore_page)) = []"
proof -
  have h: "set_size (selectedLeads restore_page) \<noteq> 0 \<and> userAccountId restore_page = Some 7
       \<and> (7::nat) \<noteq> 0 \<and> getToken no_faults = Token (Some ''jwt'') \<and> ''jwt'' \<noteq> []
       \<and> \<not> user_leads_update_failed no_faults"
    by (simp add: restore_page_def initial_page_def no_faults_def set_size_def)
  have v: "nat_to_string (set_size (selectedLeads restore_page)) = ''2''"
    "plural_suffix (set_size (selectedLeads restore_page)) = ''s''"
    "alerts restore_page = []"
    by code_simp+
  have m: "map (\<lambda>ul. if ul_user_id ul = 7 \<and> ul_lead_id ul \<in> set (selectedLeads restore_page)
                        then ul\<lparr>ul_excluded := None\<rparr> else ul) (user_leads small_db) =
     [\<lparr>ul_id = 1, ul_user_id = 7, ul_lead_id = ''A'', ul_excluded = None\<rparr>,
      \<lparr>ul_id = 2, ul_user_id = 7, ul_lead_id = ''B'', ul_excluded = None\<rparr>,
      \<lparr>ul_id = 3, ul_user_id = 7, ul_lead_id = ''C'', ul_excluded = None\<rparr>,
      \<lparr>ul_id = 4, ul_user_id = 7, ul_lead_id = ''D'', ul_excluded = None\<rparr>,
      \<lparr>ul_id = 5, ul_user_id = 8, ul_lead_id = ''A'', ul_excluded = Some 900\<rparr>]"
    by (simp add: restore_page_def initial_page_def small_db_def)
  note t = restore_frame [of no_faults no_faults small_db restore_page 7 "''jwt''"]
  from t have a: "user_accounts (fst (handleRestoreLeads no_faults no_faults small_db restore_page))
       = user_accounts small_db" by blast
  from t h have b: "user_leads (fst (handleRestoreLeads no_faults no_faults small_db restore_page)) =
             map (\<lambda>ul. if ul_user_id ul = 7 \<and> ul_lead_id ul \<in> set (selectedLeads restore_page)
                        then ul\<lparr>ul_excluded := None\<rparr> else ul) (user_leads small_db)
           \<and> successMessage (snd (handleRestoreLeads no_faults no_faults small_db restore_page)) =
               ''Successfully restored '' @ nat_to_string (set_size (selectedLeads restore_page))
                 @ '' lead'' @ plural_suffix (set_size (selectedLeads restore_page)) @ ''!''
           \<and> alerts (snd (handleRestoreLeads no_faults no_faults small_db restore_page)) = alerts restore_page
           \<and> selectedLeads (snd (handleRestoreLeads no_faults no_faults small_db restore_page)) = []"
    by blast
  from a b show ?thesis by (simp add: v m)
qed


end
